theory Spec2Isabelle
  imports Complex_Main "HOL-Library.Word"
begin

section \<open>Porphyry.js: the layout core of the mind-map library\<close>

text \<open>
  A shallow embedding of the tree building, direction assignment, text wrapping, sizing,
  adaptive spacing and positioning functions of \<^verbatim>\<open>porphyry.js\<close> (version 1.4.4).

  Numbers are JavaScript doubles in the source. The adaptive spacing, whose values
  depend on how a product is rounded before \<^verbatim>\<open>Math.round\<close> sees it, is modelled with
  double arithmetic: a configured number is the double nearest to what is written, and a
  product or a quotient is rounded to the nearest double, ties to even. Sizes and
  positions are modelled as exact reals: the properties about them are comparisons, sums
  and halves, not the rounding error of a floating-point operation. The values
  \<^verbatim>\<open>NaN\<close> and \<^verbatim>\<open>Infinity\<close> have no counterpart in the model, so a product beyond
  the largest double is outside it.
\<close>

subsection \<open>Strings and input values\<close>

text \<open>
  A JavaScript string is a sequence of UTF-16 code units; \<^verbatim>\<open>word[i]\<close> and
  \<^verbatim>\<open>word.length\<close> count code units.
\<close>

type_synonym jschar = "16 word"
type_synonym jsstring = "jschar list"

text \<open>The code units of an ASCII literal of the source.\<close>

definition js :: "string \<Rightarrow> jsstring" where
  "js s = map (\<lambda>c. of_nat (of_char c)) s"

text \<open>
  The values a caller can hand to \<^verbatim>\<open>render\<close>: JSON data. An object is its list of
  properties, read with \<open>map_of\<close>; a property that is absent reads as \<^verbatim>\<open>undefined\<close>,
  which is \<open>None\<close> here.
\<close>

datatype json =
    JNull
  | JBool bool
  | JNum real
  | JStr jsstring
  | JArr "json list"
  | JObj "(jsstring \<times> json) list"

text \<open>
  The errors of a pass. \<open>TypeError\<close> is what the JavaScript runtime throws on a property
  read of \<^verbatim>\<open>null\<close> or on a call of something that is not a function. \<open>ValidationError\<close>
  and \<open>MeasurementError\<close> are the error kinds the specification names; no function of
  the source constructs either of them.
\<close>

datatype error = TypeError | ValidationError | MeasurementError

text \<open>JavaScript truthiness, as used by \<^verbatim>\<open>||\<close>, \<^verbatim>\<open>!\<close> and \<^verbatim>\<open>if\<close>.\<close>

fun truthy :: "json \<Rightarrow> bool" where
  "truthy JNull = False"
| "truthy (JBool b) = b"
| "truthy (JNum r) = (r \<noteq> 0)"
| "truthy (JStr s) = (s \<noteq> [])"
| "truthy (JArr vs) = True"
| "truthy (JObj kvs) = True"

text \<open>
  \<^verbatim>\<open>data.k\<close> for a value \<^verbatim>\<open>data\<close> that is not \<^verbatim>\<open>null\<close> and one of the keys
  \<^verbatim>\<open>topic\<close>, \<^verbatim>\<open>url\<close>, \<^verbatim>\<open>direction\<close>, \<^verbatim>\<open>children\<close>: an object yields its property,
  and a number, boolean, string or array has no property of these names.
\<close>

fun field :: "json \<Rightarrow> jsstring \<Rightarrow> json option" where
  "field (JObj kvs) k = map_of kvs k"
| "field v k = None"

text \<open>\<^verbatim>\<open>v || d\<close> where \<^verbatim>\<open>v\<close> may be \<^verbatim>\<open>undefined\<close>.\<close>

definition js_or :: "json option \<Rightarrow> json \<Rightarrow> json" where
  "js_or v d = (case v of None \<Rightarrow> d | Some w \<Rightarrow> if truthy w then w else d)"

subsection \<open>Options\<close>

definition DEFAULT_COLORS :: "jsstring list" where
  "DEFAULT_COLORS = map js
     [''#E05C5C'', ''#F0883E'', ''#D4A017'', ''#4CAF82'', ''#29A8AB'',
      ''#4A90D9'', ''#8B6FD4'', ''#D46FAB'', ''#5BB8A0'', ''#7DAA44'']"

definition LINK_ICON_SPACE :: real where
  "LINK_ICON_SPACE = 25"

record style =
  fontSize :: real
  paddingX :: real
  paddingY :: real
  maxWidth :: real

text \<open>The entries of \<^verbatim>\<open>this.options\<close> that the layout core reads.\<close>

record options =
  colors :: "jsstring list"
  layout :: jsstring
  centerEdge :: jsstring
  branchSpacingX :: real
  subSpacingX :: real
  verticalSpacing :: real
  verticalSpacingY :: real
  horizontalSpacing :: real
  lineHeight :: real
  center :: style
  branch :: style
  leaf :: style
  center_fill :: jsstring
  spacing :: json

definition DEFAULT_OPTIONS :: options where
  "DEFAULT_OPTIONS = \<lparr>
     colors = DEFAULT_COLORS,
     layout = js ''auto'',
     centerEdge = js ''side'',
     branchSpacingX = 220,
     subSpacingX = 170,
     verticalSpacing = 50,
     verticalSpacingY = 60,
     horizontalSpacing = 30,
     lineHeight = 1.45,
     center = \<lparr>fontSize = 17, paddingX = 28, paddingY = 16, maxWidth = 240\<rparr>,
     branch = \<lparr>fontSize = 14, paddingX = 18, paddingY = 10, maxWidth = 200\<rparr>,
     leaf = \<lparr>fontSize = 13, paddingX = 10, paddingY = 7, maxWidth = 170\<rparr>,
     center_fill = js ''#1A1F2E'',
     spacing = JNum 1 \<rparr>"

subsection \<open>Nodes\<close>

text \<open>
  The fields of a node object. \<open>nid\<close> is the source's \<^verbatim>\<open>_id\<close>, \<open>pos_x\<close> and \<open>pos_y\<close> are
  its \<^verbatim>\<open>x\<close> and \<^verbatim>\<open>y\<close>, and the four \<open>node_\<close> fields are the \<^verbatim>\<open>fontSize\<close>,
  \<^verbatim>\<open>lineHeight\<close>, \<^verbatim>\<open>paddingX\<close> and \<^verbatim>\<open>paddingY\<close> that sizing stores on the node.
  \<open>lines\<close>, \<open>node_lineHeight\<close>, \<open>node_paddingX\<close> and \<open>node_paddingY\<close> do not exist on
  a node before sizing; they start as \<open>[]\<close> and \<open>0\<close>. The \<^verbatim>\<open>parent\<close> back-reference is
  left out: the tree is owned top-down and no function modelled here reads it.
\<close>

record node_info =
  topic :: json
  url :: json
  direction :: json
  depth :: nat
  colorIdx :: int
  nid :: nat
  pos_x :: real
  pos_y :: real
  width :: real
  height :: real
  node_fontSize :: real
  node_lineHeight :: real
  node_paddingX :: real
  node_paddingY :: real
  lines :: "jsstring list"

datatype node = Node (info: node_info) (children: "node list")

subsection \<open>Tree building\<close>

text \<open>The object literal at the head of \<^verbatim>\<open>_buildTree\<close>, for \<^verbatim>\<open>data\<close> other than \<^verbatim>\<open>null\<close>.\<close>

definition newNode :: "json \<Rightarrow> int \<Rightarrow> nat \<Rightarrow> nat \<Rightarrow> node_info" where
  "newNode data ci d counter = \<lparr>
     topic = js_or (field data (js ''topic'')) (JStr []),
     url = js_or (field data (js ''url'')) JNull,
     direction = js_or (field data (js ''direction'')) JNull,
     depth = d,
     colorIdx = ci,
     nid = counter,
     pos_x = 0, pos_y = 0, width = 0, height = 0,
     node_fontSize = 0, node_lineHeight = 0, node_paddingX = 0, node_paddingY = 0,
     lines = [] \<rparr>"

lemma size_map_of:
  "map_of kvs k = Some v \<Longrightarrow> size v < Suc (size_list (size_prod (\<lambda>_. 0) size) kvs)"
  by (induction kvs) (auto split: if_splits)

text \<open>
  \<^verbatim>\<open>_buildTree(data, parent, colorIdx, depth)\<close>. The instance counter
  \<^verbatim>\<open>this._nodeIdCounter\<close> is passed in and returned. \<open>buildChildren\<close> is the
  \<^verbatim>\<open>data.children.forEach\<close> loop, \<open>i\<close> the index of its callback. Reading
  \<^verbatim>\<open>data.topic\<close> of \<^verbatim>\<open>null\<close> throws before anything is built.
\<close>

function buildTree :: "json \<Rightarrow> int \<Rightarrow> nat \<Rightarrow> nat \<Rightarrow> error + (node \<times> nat)"
  and buildChildren :: "json list \<Rightarrow> nat \<Rightarrow> int \<Rightarrow> nat \<Rightarrow> nat \<Rightarrow> error + (node list \<times> nat)"
where
  "buildTree data ci d counter =
     (if data = JNull then Inl TypeError
      else
        (case field data (js ''children'') of
           Some (JArr cds) \<Rightarrow>
             (case buildChildren cds 0 ci d (Suc counter) of
                Inl e \<Rightarrow> Inl e
              | Inr (cs, counter') \<Rightarrow> Inr (Node (newNode data ci d counter) cs, counter'))
         | _ \<Rightarrow> Inr (Node (newNode data ci d counter) [], Suc counter)))"
| "buildChildren [] i ci d counter = Inr ([], counter)"
| "buildChildren (childData # rest) i ci d counter =
     (case buildTree childData
             (if d = 0 then int (i mod length DEFAULT_COLORS) else ci) (d + 1) counter of
        Inl e \<Rightarrow> Inl e
      | Inr (c, counter') \<Rightarrow>
          (case buildChildren rest (i + 1) ci d counter' of
             Inl e \<Rightarrow> Inl e
           | Inr (cs, counter'') \<Rightarrow> Inr (c # cs, counter'')))"
  by pat_completeness auto
termination
proof (relation "measure (\<lambda>a. case a of Inl (data, _) \<Rightarrow> size data
                                     | Inr (cds, _) \<Rightarrow> size_list size cds)", goal_cases)
  case 1
  show ?case by simp
next
  case (2 data ci d counter x2 cds)
  then obtain kvs where "data = JObj kvs"
    by (cases data) auto
  with 2 show ?case
    using size_map_of [of kvs "js ''children''" "JArr cds"] by simp
next
  case 3
  then show ?case by simp
next
  case 4
  then show ?case by simp
qed

text \<open>
  The head of \<^verbatim>\<open>_renderInternal\<close>: the counter is reset and the tree is built from the
  stored data with \<^verbatim>\<open>colorIdx = -1\<close> and \<^verbatim>\<open>depth = 0\<close>.
\<close>

definition buildRoot :: "json \<Rightarrow> error + node" where
  "buildRoot data = (case buildTree data (- 1) 0 0 of Inl e \<Rightarrow> Inl e | Inr (t, _) \<Rightarrow> Inr t)"

text \<open>
  The colour a node is drawn with, from \<^verbatim>\<open>_drawNode\<close>:
  \<^verbatim>\<open>node.depth === 0 ? o.center.fill : o.colors[node.colorIdx]\<close>. An index outside the
  array reads as \<^verbatim>\<open>undefined\<close>, which is \<open>None\<close>.
\<close>

definition nodeColor :: "options \<Rightarrow> node_info \<Rightarrow> jsstring option" where
  "nodeColor opts n =
     (if depth n = 0 then Some (center_fill opts)
      else if 0 \<le> colorIdx n \<and> nat (colorIdx n) < length (colors opts)
           then Some (colors opts ! nat (colorIdx n)) else None)"

text \<open>The nodes of a tree in depth-first preorder, children in array order.\<close>

fun preorder :: "node \<Rightarrow> node_info list" where
  "preorder (Node i cs) = i # concat (map preorder cs)"

text \<open>
  The node data of an input in depth-first preorder: the input itself, then the node
  data of each element of its \<^verbatim>\<open>children\<close> array, when it has one.
\<close>

function nodeData :: "json \<Rightarrow> json list" where
  "nodeData data =
     data # (case field data (js ''children'') of
        Some (JArr cds) \<Rightarrow> concat (map nodeData cds)
      | _ \<Rightarrow> [])"
  by pat_completeness auto
termination
proof (relation "measure size", goal_cases)
  case 1
  show ?case by simp
next
  case (2 data x2 cds c)
  then obtain kvs where "data = JObj kvs"
    by (cases data) auto
  with 2 have "size (JArr cds) < size data"
    using size_map_of [of kvs "js ''children''" "JArr cds"] by simp
  moreover from 2 have "size c < size (JArr cds)"
    by (simp add: size_list_estimation' less_Suc_eq_le)
  ultimately show ?case by simp
qed

text \<open>Every node of the tree carries the depth of its position, the root carrying \<open>d\<close>.\<close>

fun depthsFrom :: "nat \<Rightarrow> node \<Rightarrow> bool" where
  "depthsFrom d (Node i cs) = (depth i = d \<and> (\<forall>c\<in>set cs. depthsFrom (Suc d) c))"

text \<open>The input of the specification's scenario and the tree built from it.\<close>

definition exampleRoot :: json where
  "exampleRoot = JObj [(js ''topic'', JStr (js ''Root'')),
     (js ''children'', JArr [JObj [(js ''topic'', JStr (js ''A''))],
                             JObj [(js ''topic'', JStr (js ''B''))],
                             JObj [(js ''topic'', JStr (js ''C''))]])]"

definition exampleTree :: node where
  "exampleTree = Node (newNode exampleRoot (- 1) 0 0)
     [Node (newNode (JObj [(js ''topic'', JStr (js ''A''))]) 0 1 1) [],
      Node (newNode (JObj [(js ''topic'', JStr (js ''B''))]) 1 1 2) [],
      Node (newNode (JObj [(js ''topic'', JStr (js ''C''))]) 2 1 3) []]"

text \<open>
  The elements of \<^verbatim>\<open>data.children\<close> when it is an array, and the relation between a
  node datum and the tree built from it: the node carries the topic, the link and the
  direction of the datum, and its children are built, one for one and in array order,
  from the elements of the datum's child array.
\<close>

definition childArray :: "json \<Rightarrow> json list" where
  "childArray data = (case field data (js ''children'') of Some (JArr cds) \<Rightarrow> cds | _ \<Rightarrow> [])"

fun builtFrom :: "json \<Rightarrow> node \<Rightarrow> bool" where
  "builtFrom data (Node i cs) \<longleftrightarrow>
     topic i = js_or (field data (js ''topic'')) (JStr []) \<and>
     url i = js_or (field data (js ''url'')) JNull \<and>
     direction i = js_or (field data (js ''direction'')) JNull \<and>
     list_all2 builtFrom (childArray data) cs"

text \<open>An input whose first branch has two children, and the tree built from it.\<close>

definition nestedRoot :: json where
  "nestedRoot = JObj [(js ''topic'', JStr (js ''Root'')),
     (js ''children'', JArr [
        JObj [(js ''topic'', JStr (js ''A'')),
              (js ''children'', JArr [JObj [(js ''topic'', JStr (js ''A1''))],
                                      JObj [(js ''topic'', JStr (js ''A2''))]])],
        JObj [(js ''topic'', JStr (js ''B''))]])]"

definition nestedTree :: node where
  "nestedTree = Node (newNode nestedRoot (- 1) 0 0)
     [Node (newNode (JObj [(js ''topic'', JStr (js ''A'')),
              (js ''children'', JArr [JObj [(js ''topic'', JStr (js ''A1''))],
                                      JObj [(js ''topic'', JStr (js ''A2''))]])]) 0 1 1)
        [Node (newNode (JObj [(js ''topic'', JStr (js ''A1''))]) 0 2 2) [],
         Node (newNode (JObj [(js ''topic'', JStr (js ''A2''))]) 0 2 3) []],
      Node (newNode (JObj [(js ''topic'', JStr (js ''B''))]) 1 1 4) []]"

text \<open>A root with four childless branches, and a palette of three colours.\<close>

definition fourBranches :: json where
  "fourBranches = JObj [(js ''topic'', JStr (js ''Root'')),
     (js ''children'', JArr [JObj [(js ''topic'', JStr (js ''A''))],
                             JObj [(js ''topic'', JStr (js ''B''))],
                             JObj [(js ''topic'', JStr (js ''C''))],
                             JObj [(js ''topic'', JStr (js ''D''))]])]"

definition threeColors :: options where
  "threeColors = DEFAULT_OPTIONS \<lparr> colors := map js [''#E05C5C'', ''#4A90D9'', ''#4CAF82''] \<rparr>"

text \<open>An input is object-shaped when it is an object that is not an array.\<close>

fun isObject :: "json \<Rightarrow> bool" where
  "isObject (JObj kvs) = True"
| "isObject v = False"

subsection \<open>Direction assignment\<close>

text \<open>\<^verbatim>\<open>_propagateDir(node, dir)\<close>: the node and every descendant get \<^verbatim>\<open>dir\<close>.\<close>

fun propagateDir :: "node \<Rightarrow> json \<Rightarrow> node" where
  "propagateDir (Node i cs) dir =
     Node (i \<lparr> direction := dir \<rparr>) (map (\<lambda>c. propagateDir c dir) cs)"

text \<open>The assignment \<^verbatim>\<open>c.direction = dir\<close>.\<close>

definition setDirection :: "node \<Rightarrow> json \<Rightarrow> node" where
  "setDirection c dir = Node ((info c) \<lparr> direction := dir \<rparr>) (children c)"

text \<open>
  The \<^verbatim>\<open>floats.forEach\<close> loop of \<^verbatim>\<open>_assignDirections\<close>. \<^verbatim>\<open>floats\<close> is
  \<^verbatim>\<open>root.children.filter(c => !c.direction)\<close>: the same node objects, in array order.
  The loop assigns to them in place, so the model walks \<^verbatim>\<open>root.children\<close> itself and
  passes over the children that are not in \<^verbatim>\<open>floats\<close>.
\<close>

fun assignFloats :: "node list \<Rightarrow> nat \<Rightarrow> nat \<Rightarrow> node list" where
  "assignFloats [] rightCount leftCount = []"
| "assignFloats (c # cs) rightCount leftCount =
     (if truthy (direction (info c)) then c # assignFloats cs rightCount leftCount
      else if rightCount \<le> leftCount
           then setDirection c (JStr (js ''right'')) # assignFloats cs (rightCount + 1) leftCount
           else setDirection c (JStr (js ''left'')) # assignFloats cs rightCount (leftCount + 1))"

text \<open>\<^verbatim>\<open>_assignDirections(root)\<close>, returning the tree with its directions set.\<close>

definition assignDirections :: "options \<Rightarrow> node \<Rightarrow> node" where
  "assignDirections opts rt =
     (if layout opts = js ''down'' \<or> layout opts = js ''up''
      then Node (info rt) (map (\<lambda>c. propagateDir c (JStr (layout opts))) (children rt))
      else if layout opts = js ''left''
      then Node (info rt) (map (\<lambda>c. propagateDir c (JStr (js ''left''))) (children rt))
      else if layout opts = js ''right''
      then Node (info rt) (map (\<lambda>c. propagateDir c (JStr (js ''right''))) (children rt))
      else
        let fixed = filter (\<lambda>c. direction (info c) = JStr (js ''left'') \<or>
                                 direction (info c) = JStr (js ''right'')) (children rt);
            rightCount = length (filter (\<lambda>c. direction (info c) = JStr (js ''right'')) fixed);
            leftCount = length (filter (\<lambda>c. direction (info c) = JStr (js ''left'')) fixed)
        in Node (info rt)
             (map (\<lambda>c. propagateDir c (direction (info c)))
                (assignFloats (children rt) rightCount leftCount)))"

text \<open>
  The balanced mode is the fall-through of \<^verbatim>\<open>_assignDirections\<close>: it is taken for
  \<^verbatim>\<open>'auto'\<close> and for every layout value other than the four named ones.
\<close>

definition autoLayout :: "options \<Rightarrow> bool" where
  "autoLayout opts \<longleftrightarrow> layout opts \<notin> {js ''down'', js ''up'', js ''left'', js ''right''}"

text \<open>A top-level child is pinned when it carries an explicit \<^verbatim>\<open>'left'\<close> or \<^verbatim>\<open>'right'\<close>,
  and unpinned when it carries no direction.\<close>

definition pinned :: "node \<Rightarrow> bool" where
  "pinned c \<longleftrightarrow> direction (info c) = JStr (js ''left'') \<or> direction (info c) = JStr (js ''right'')"

definition unpinned :: "node \<Rightarrow> bool" where
  "unpinned c \<longleftrightarrow> \<not> truthy (direction (info c))"

text \<open>
  The number of children assigned to \<open>side\<close> at the moment child \<open>i\<close> is considered:
  the children pinned to that side, and the unpinned children before \<open>i\<close> that ended up
  on it. \<open>cs\<close> are the children as built and \<open>ds\<close> the directions they end up with.
\<close>

definition assignedBefore :: "string \<Rightarrow> node list \<Rightarrow> json list \<Rightarrow> nat \<Rightarrow> nat" where
  "assignedBefore side cs ds i =
     length (filter (\<lambda>c. pinned c \<and> direction (info c) = JStr (js side)) cs) +
     length (filter (\<lambda>(c, d). unpinned c \<and> d = JStr (js side)) (take i (zip cs ds)))"

text \<open>Example branches: a childless branch built from data with the given direction,
  and a branch with one child.\<close>

definition exampleBranch :: "json \<Rightarrow> nat \<Rightarrow> node" where
  "exampleBranch dir k =
     Node (newNode (JObj [(js ''direction'', dir)]) (int k) 1 (Suc k)) []"

definition exampleParent :: "json \<Rightarrow> nat \<Rightarrow> node" where
  "exampleParent dir k =
     Node (newNode (JObj [(js ''direction'', dir)]) (int k) 1 (Suc k))
       [Node (newNode (JObj []) (int k) 2 (Suc (Suc k))) []]"

definition fiveFloats :: "node list" where
  "fiveFloats = map (exampleBranch JNull) [0, 1, 2, 3, 4]"

definition mixedBranches :: "node list" where
  "mixedBranches =
     [exampleBranch (JStr (js ''left'')) 0, exampleBranch JNull 1, exampleBranch JNull 2,
      exampleBranch (JStr (js ''right'')) 3, exampleBranch JNull 4]"

definition exampleRootInfo :: node_info where
  "exampleRootInfo = newNode (JObj []) (- 1) 0 0"

text \<open>Three branches, the middle one carrying the direction \<^verbatim>\<open>'up'\<close>.\<close>

definition upBranches :: "node list" where
  "upBranches =
     [exampleParent JNull 0, exampleParent (JStr (js ''up'')) 2, exampleBranch JNull 4]"

subsection \<open>Text wrapping\<close>

text \<open>The code units the regular expression class \<^verbatim>\<open>\s\<close> matches: the ECMAScript
  white space and line terminator characters.\<close>

definition isSpace :: "jschar \<Rightarrow> bool" where
  "isSpace c =
     (let n = unat c in
        (9 \<le> n \<and> n \<le> 13) \<or> n = 32 \<or> n = 160 \<or> n = 5760 \<or>
        (8192 \<le> n \<and> n \<le> 8202) \<or> n = 8232 \<or> n = 8233 \<or> n = 8239 \<or>
        n = 8287 \<or> n = 12288 \<or> n = 65279)"

text \<open>
  \<^verbatim>\<open>text.split(/\s+/).filter(Boolean)\<close>: the maximal runs of characters that are not
  white space, in order. \<open>w\<close> is the run collected so far.
\<close>

fun splitWords :: "jsstring \<Rightarrow> jsstring \<Rightarrow> jsstring list" where
  "splitWords [] w = (if w = [] then [] else [w])"
| "splitWords (c # cs) w =
     (if isSpace c then (if w = [] then splitWords cs [] else w # splitWords cs [])
      else splitWords cs (w @ [c]))"

text \<open>The \<^verbatim>\<open>for\<close> loop of the inner function \<^verbatim>\<open>breakWord\<close>, over the characters that are
  left, and \<^verbatim>\<open>breakWord\<close> itself.\<close>

fun breakLoop :: "(jsstring \<Rightarrow> real) \<Rightarrow> real \<Rightarrow> jsstring \<Rightarrow> jsstring \<Rightarrow> jsstring list \<Rightarrow> jsstring list" where
  "breakLoop measureFn maxPx [] chunk chunks = (if chunk \<noteq> [] then chunks @ [chunk] else chunks)"
| "breakLoop measureFn maxPx (c # cs) chunk chunks =
     (let candidate = chunk @ [c] in
      if measureFn candidate \<le> maxPx then breakLoop measureFn maxPx cs candidate chunks
      else breakLoop measureFn maxPx cs [c] (if chunk \<noteq> [] then chunks @ [chunk] else chunks))"

definition breakWord :: "(jsstring \<Rightarrow> real) \<Rightarrow> real \<Rightarrow> jsstring \<Rightarrow> jsstring list" where
  "breakWord measureFn maxPx word =
     (let chunks = breakLoop measureFn maxPx word [] [] in
      if chunks \<noteq> [] then chunks else [word])"

text \<open>The two nested \<^verbatim>\<open>forEach\<close> loops of \<^verbatim>\<open>wrapText\<close>; the state is the pair of
  \<^verbatim>\<open>current\<close> and \<^verbatim>\<open>lines\<close>.\<close>

fun packParts :: "(jsstring \<Rightarrow> real) \<Rightarrow> real \<Rightarrow> jsstring list \<Rightarrow> jsstring \<times> jsstring list
    \<Rightarrow> jsstring \<times> jsstring list" where
  "packParts measureFn maxPx [] st = st"
| "packParts measureFn maxPx (part # parts) (current, lns) =
     (let candidate = (if current \<noteq> [] then current @ js '' '' @ part else part) in
      if measureFn candidate \<le> maxPx then packParts measureFn maxPx parts (candidate, lns)
      else packParts measureFn maxPx parts
             (part, if current \<noteq> [] then lns @ [current] else lns))"

fun packWords :: "(jsstring \<Rightarrow> real) \<Rightarrow> real \<Rightarrow> jsstring list \<Rightarrow> jsstring \<times> jsstring list
    \<Rightarrow> jsstring \<times> jsstring list" where
  "packWords measureFn maxPx [] st = st"
| "packWords measureFn maxPx (word # words) st =
     packWords measureFn maxPx words
       (packParts measureFn maxPx
          (if measureFn word > maxPx then breakWord measureFn maxPx word else [word]) st)"

definition wrapText :: "jsstring \<Rightarrow> real \<Rightarrow> (jsstring \<Rightarrow> real) \<Rightarrow> jsstring list" where
  "wrapText text maxPx measureFn =
     (let words = splitWords text [] in
      if words = [] then [[]]
      else (case packWords measureFn maxPx words ([], []) of
              (current, lns) \<Rightarrow> if current \<noteq> [] then lns @ [current] else lns))"

text \<open>A line fits when its measured width does not exceed the budget, or it is a single
  character whose own measured width exceeds the budget.\<close>

definition fits :: "(jsstring \<Rightarrow> real) \<Rightarrow> real \<Rightarrow> jsstring \<Rightarrow> bool" where
  "fits measureFn maxPx l \<longleftrightarrow>
     measureFn l \<le> maxPx \<or> (length l = 1 \<and> maxPx < measureFn l)"



text \<open>The invariant of the loops: a line is not empty and fits.\<close>

definition okLine :: "(jsstring \<Rightarrow> real) \<Rightarrow> real \<Rightarrow> jsstring \<Rightarrow> bool" where
  "okLine m maxPx l \<longleftrightarrow> l \<noteq> [] \<and> fits m maxPx l"

definition okState :: "(jsstring \<Rightarrow> real) \<Rightarrow> real \<Rightarrow> jsstring \<times> jsstring list \<Rightarrow> bool" where
  "okState m maxPx st \<longleftrightarrow>
     (fst st = [] \<or> okLine m maxPx (fst st)) \<and> (\<forall>l\<in>set (snd st). okLine m maxPx l)"

text \<open>A measurement function for examples: ten pixels for each character.\<close>

definition tenPerChar :: "jsstring \<Rightarrow> real" where
  "tenPerChar s = 10 * real (length s)"

subsection \<open>Size computation\<close>

text \<open>
  \<^verbatim>\<open>_measureText(text, fontSize)\<close>. The source measures with a canvas context; the
  measurement is a parameter here, \<open>measurer\<close>. \<^verbatim>\<open>this._textCache\<close> memoises it under the
  key \<^verbatim>\<open>text + ':' + fontSize\<close>, which determines both arguments, so the cached value is
  the measured one.
\<close>

definition measureText :: "(jsstring \<Rightarrow> real \<Rightarrow> real) \<Rightarrow> jsstring \<Rightarrow> real \<Rightarrow> real" where
  "measureText measurer t fs = measurer t fs"

text \<open>
  \<^verbatim>\<open>_computeSizes(node)\<close>, returning the sized subtree. \<^verbatim>\<open>wrapText\<close> calls
  \<^verbatim>\<open>text.split\<close>, which throws a \<open>TypeError\<close> when the topic is not a string.
  \<open>computeSizesEach\<close> is \<^verbatim>\<open>node.children.forEach\<close>.
\<close>

fun computeSizes :: "options \<Rightarrow> (jsstring \<Rightarrow> real \<Rightarrow> real) \<Rightarrow> node \<Rightarrow> error + node"
  and computeSizesEach :: "options \<Rightarrow> (jsstring \<Rightarrow> real \<Rightarrow> real) \<Rightarrow> node list \<Rightarrow> error + node list"
where
  "computeSizes opts measurer (Node i cs) =
     (let st = (if depth i = 0 then center opts
                else if depth i = 1 then branch opts else leaf opts);
          fs = fontSize st; px = paddingX st; py = paddingY st; maxW = maxWidth st;
          iconExtra = (if truthy (url i) then LINK_ICON_SPACE else 0);
          maxContentW = maxW - px * 2 - iconExtra;
          measure = (\<lambda>t. measureText measurer t fs)
      in case topic i of
           JStr t \<Rightarrow>
             (let lns = wrapText t maxContentW measure;
                  maxLineW = foldl (\<lambda>m l. max m (measure l)) 0 lns;
                  lh = fs * lineHeight opts;
                  i' = i \<lparr> node_fontSize := fs, node_lineHeight := lh,
                            node_paddingX := px, node_paddingY := py, lines := lns,
                            width := of_int \<lceil>min (maxLineW + px * 2 + iconExtra) maxW\<rceil>,
                            height := of_int \<lceil>real (length lns) * lh + py * 2\<rceil> \<rparr>
              in case computeSizesEach opts measurer cs of
                   Inl e \<Rightarrow> Inl e
                 | Inr cs' \<Rightarrow> Inr (Node i' cs'))
         | _ \<Rightarrow> Inl TypeError)"
| "computeSizesEach opts measurer [] = Inr []"
| "computeSizesEach opts measurer (c # cs) =
     (case computeSizes opts measurer c of
        Inl e \<Rightarrow> Inl e
      | Inr c' \<Rightarrow>
          (case computeSizesEach opts measurer cs of
             Inl e \<Rightarrow> Inl e
           | Inr cs' \<Rightarrow> Inr (c' # cs')))"

text \<open>A node's topic is a string: so it is whenever the input's \<^verbatim>\<open>topic\<close> is a string or
  is missing.\<close>

definition topicIsString :: "node_info \<Rightarrow> bool" where
  "topicIsString n = (case topic n of JStr t \<Rightarrow> True | _ \<Rightarrow> False)"

subsection \<open>Adaptive spacing\<close>

text \<open>The object \<^verbatim>\<open>this._sp\<close>.\<close>

record spacingConsts =
  sp_branchSpacingX :: real
  sp_subSpacingX :: real
  sp_verticalSpacingY :: real
  sp_horizontalSpacing :: real
  sp_verticalSpacing :: real

text \<open>\<^verbatim>\<open>_maxDepth(node)\<close>: the largest \<^verbatim>\<open>depth\<close> field of a leaf of the subtree.\<close>

fun maxDepth :: "node \<Rightarrow> nat" where
  "maxDepth (Node i cs) = (if cs = [] then depth i else Max (set (map maxDepth cs)))"

text \<open>
  Double arithmetic (IEEE 754 binary64, round to nearest, ties to even). \<open>bitLength n\<close>
  is the number of binary digits of \<open>n\<close>; \<open>exponent x\<close> is the \<open>e\<close> with
  \<open>2 ^ e \<le> \<bar>x\<bar> < 2 ^ (e + 1)\<close>; \<open>double x\<close> is the multiple of the quantum
  \<open>2 ^ (e - 52)\<close> nearest to \<open>x\<close> (the quantum of the subnormal range below
  \<open>2 ^ -1022\<close>), the one with the even multiplier when two are equally near. \<open>double\<close>
  is what a number literal denotes, \<open>fmul\<close> and \<open>fdiv\<close> are \<^verbatim>\<open>*\<close> and \<^verbatim>\<open>/\<close>.
\<close>

function bitLength :: "nat \<Rightarrow> nat" where
  "bitLength n = (if n = 0 then 0 else Suc (bitLength (n div 2)))"
  by pat_completeness auto
termination
  by (relation "measure id") auto

definition pow2 :: "int \<Rightarrow> real" where
  "pow2 k = (if 0 \<le> k then 2 ^ nat k else 1 / 2 ^ nat (- k))"

definition exponent :: "real \<Rightarrow> int" where
  "exponent x =
     (if 1 \<le> \<bar>x\<bar> then int (bitLength (nat \<lfloor>\<bar>x\<bar>\<rfloor>)) - 1
      else - int (bitLength (nat (\<lceil>1 / \<bar>x\<bar>\<rceil> - 1))))"

definition roundEven :: "real \<Rightarrow> int" where
  "roundEven x =
     (let f = \<lfloor>x\<rfloor>; d = x - of_int f in
      if d < 1 / 2 then f else if 1 / 2 < d then f + 1 else if even f then f else f + 1)"

definition double :: "real \<Rightarrow> real" where
  "double x =
     (let q = pow2 (max (exponent x) (- 1022) - 52) in of_int (roundEven (x / q)) * q)"

definition fmul :: "real \<Rightarrow> real \<Rightarrow> real" where
  "fmul x y = double (x * y)"

definition fdiv :: "real \<Rightarrow> real \<Rightarrow> real" where
  "fdiv x y = double (x / y)"

text \<open>\<^verbatim>\<open>typeof o.spacing === 'number' ? o.spacing : 1\<close>.\<close>

definition spacingMultiplier :: "options \<Rightarrow> real" where
  "spacingMultiplier opts = (case spacing opts of JNum r \<Rightarrow> double r | _ \<Rightarrow> 1)"

text \<open>\<^verbatim>\<open>_computeAdaptiveSpacing(root)\<close>, returning \<^verbatim>\<open>this._sp\<close>. The base gaps are the
  doubles of the configured numbers, the products are double products in the order of
  the source, \<^verbatim>\<open>o.branchSpacingX * (sm * depthFactor)\<close>, and \<^verbatim>\<open>Math.round\<close> rounds a
  double to the nearest integer, a half upwards, as \<open>round\<close> does.\<close>

definition computeAdaptiveSpacing :: "options \<Rightarrow> node \<Rightarrow> spacingConsts" where
  "computeAdaptiveSpacing opts rt =
     (let sm = spacingMultiplier opts in
      if layout opts = js ''up'' \<or> layout opts = js ''down''
      then \<lparr> sp_branchSpacingX = of_int (round (fmul (double (branchSpacingX opts)) sm)),
             sp_subSpacingX = of_int (round (fmul (double (subSpacingX opts)) sm)),
             sp_verticalSpacingY = of_int (round (fmul (double (verticalSpacingY opts)) sm)),
             sp_horizontalSpacing = of_int (round (fmul (double (horizontalSpacing opts)) sm)),
             sp_verticalSpacing = of_int (round (fmul (double (verticalSpacing opts)) sm)) \<rparr>
      else
        let maxD = maxDepth rt;
            MIN_FACTOR = double 0.45;
            FULL_UP_TO = 2;
            SCALE_DIVISOR = double 2.5;
            depthFactor = (if maxD \<le> FULL_UP_TO then 1
                           else max MIN_FACTOR (fdiv SCALE_DIVISOR (real maxD)));
            factor = fmul sm depthFactor
        in \<lparr> sp_branchSpacingX = of_int (round (fmul (double (branchSpacingX opts)) factor)),
               sp_subSpacingX = of_int (round (fmul (double (subSpacingX opts)) factor)),
               sp_verticalSpacingY = of_int (round (fmul (double (verticalSpacingY opts)) sm)),
               sp_horizontalSpacing = of_int (round (fmul (double (horizontalSpacing opts)) sm)),
               sp_verticalSpacing = of_int (round (fmul (double (verticalSpacing opts)) sm)) \<rparr>)"

text \<open>The number of levels below the root of a tree: the depth of its deepest leaf.\<close>

fun treeHeight :: "node \<Rightarrow> nat" where
  "treeHeight (Node i cs) = (if cs = [] then 0 else Suc (Max (set (map treeHeight cs))))"

text \<open>The vertical flow modes.\<close>

definition verticalLayout :: "options \<Rightarrow> bool" where
  "verticalLayout opts \<longleftrightarrow> layout opts = js ''down'' \<or> layout opts = js ''up''"

text \<open>A chain of \<open>n + 1\<close> nodes starting at depth \<open>d\<close>, and options for a vertical layout.\<close>

fun chain :: "nat \<Rightarrow> nat \<Rightarrow> node" where
  "chain d 0 = Node (newNode (JObj []) 0 d d) []"
| "chain d (Suc n) = Node (newNode (JObj []) 0 d d) [chain (Suc d) n]"

definition downOptions :: options where
  "downOptions = DEFAULT_OPTIONS \<lparr> layout := js ''down'', spacing := JNum 1.5 \<rparr>"

text \<open>Options with a compact spacing, and options with a relaxed spacing and a branch gap
  of 200.\<close>

definition compactOptions :: options where
  "compactOptions = DEFAULT_OPTIONS \<lparr> spacing := JNum 0.35 \<rparr>"

definition relaxedOptions :: options where
  "relaxedOptions = DEFAULT_OPTIONS \<lparr> branchSpacingX := 200, spacing := JNum 1.15 \<rparr>"

subsection \<open>Layout\<close>

text \<open>
  \<^verbatim>\<open>_subtreeHeight(node)\<close> and \<^verbatim>\<open>_subtreeWidth(node)\<close>: the footprint of a subtree.
  \<^verbatim>\<open>this._sp\<close> is set by \<^verbatim>\<open>_computeAdaptiveSpacing\<close> before every layout, so the
  fallback to \<^verbatim>\<open>this.options\<close> for an unset \<^verbatim>\<open>this._sp\<close> is never taken; \<open>sp\<close> is
  \<^verbatim>\<open>this._sp\<close> and \<open>collapsed\<close> is the set \<^verbatim>\<open>this._collapsed\<close>.
\<close>

fun subtreeHeight :: "spacingConsts \<Rightarrow> nat set \<Rightarrow> node \<Rightarrow> real" where
  "subtreeHeight sp collapsed (Node i cs) =
     (let vs = sp_verticalSpacing sp in
      if cs = [] \<or> nid i \<in> collapsed then height i + vs
      else max (sum_list (map (subtreeHeight sp collapsed) cs)) (height i + vs))"

fun subtreeWidth :: "spacingConsts \<Rightarrow> nat set \<Rightarrow> node \<Rightarrow> real" where
  "subtreeWidth sp collapsed (Node i cs) =
     (let hs = sp_horizontalSpacing sp in
      if cs = [] \<or> nid i \<in> collapsed then width i + hs
      else max (sum_list (map (subtreeWidth sp collapsed) cs)) (width i + hs))"

text \<open>
  \<^verbatim>\<open>_layoutNode(node, anchorX, y, dir)\<close>, returning the positioned subtree.
  \<open>layoutChildren\<close> is the \<^verbatim>\<open>forEach\<close> loop over the children with its running \<^verbatim>\<open>cy\<close>;
  \<^verbatim>\<open>heights[i]\<close> is the footprint of the child at hand.
\<close>

fun layoutNode :: "spacingConsts \<Rightarrow> nat set \<Rightarrow> node \<Rightarrow> real \<Rightarrow> real \<Rightarrow> jsstring \<Rightarrow> node"
  and layoutChildren :: "spacingConsts \<Rightarrow> nat set \<Rightarrow> node list \<Rightarrow> real \<Rightarrow> real \<Rightarrow> jsstring \<Rightarrow> node list"
where
  "layoutNode sp collapsed (Node i cs) anchorX y dir =
     (let nx = (if dir = js ''right'' then anchorX + width i / 2 else anchorX - width i / 2);
          i' = i \<lparr> pos_x := nx, pos_y := y \<rparr>
      in if cs = [] \<or> nid i \<in> collapsed then Node i' cs
         else
           let nextAnchor = (if dir = js ''right'' then nx + width i / 2 + sp_subSpacingX sp
                             else nx - width i / 2 - sp_subSpacingX sp);
               totalH = sum_list (map (subtreeHeight sp collapsed) cs)
           in Node i' (layoutChildren sp collapsed cs nextAnchor (y - totalH / 2) dir))"
| "layoutChildren sp collapsed [] anchorX cy dir = []"
| "layoutChildren sp collapsed (child # rest) anchorX cy dir =
     (let h = subtreeHeight sp collapsed child
      in layoutNode sp collapsed child anchorX (cy + h / 2) dir #
         layoutChildren sp collapsed rest anchorX (cy + h) dir)"

text \<open>
  The \<^verbatim>\<open>branches.forEach\<close> loop of \<^verbatim>\<open>_layoutSide\<close>. \<^verbatim>\<open>branches\<close> is
  \<^verbatim>\<open>root.children.filter(c => c.direction === dir)\<close>, the same node objects in array
  order, positioned in place: the model walks \<^verbatim>\<open>root.children\<close> and passes over the
  children of another direction.
\<close>

fun layoutBranches :: "spacingConsts \<Rightarrow> nat set \<Rightarrow> node list \<Rightarrow> real \<Rightarrow> real \<Rightarrow> jsstring \<Rightarrow> node list" where
  "layoutBranches sp collapsed [] edgeX y dir = []"
| "layoutBranches sp collapsed (c # cs) edgeX y dir =
     (if direction (info c) = JStr dir
      then (let h = subtreeHeight sp collapsed c
            in layoutNode sp collapsed c edgeX (y + h / 2) dir #
               layoutBranches sp collapsed cs edgeX (y + h) dir)
      else c # layoutBranches sp collapsed cs edgeX y dir)"

text \<open>
  \<^verbatim>\<open>_layoutSide(root, branches, dir)\<close>, on the children of the root, returning them with
  the branches of direction \<^verbatim>\<open>dir\<close> positioned.
\<close>

definition layoutSide :: "options \<Rightarrow> spacingConsts \<Rightarrow> nat set \<Rightarrow> node_info \<Rightarrow> node list \<Rightarrow> jsstring \<Rightarrow> node list" where
  "layoutSide opts sp collapsed rootInfo cs dir =
     (let branches = filter (\<lambda>c. direction (info c) = JStr dir) cs
      in if branches = [] then cs
         else
           let edgeX = (if dir = js ''right''
                        then (if centerEdge opts = js ''side''
                              then width rootInfo / 2 + sp_branchSpacingX sp
                              else sp_branchSpacingX sp)
                        else (if centerEdge opts = js ''side''
                              then - (width rootInfo / 2 + sp_branchSpacingX sp)
                              else - sp_branchSpacingX sp));
               totalH = sum_list (map (subtreeHeight sp collapsed) branches)
           in layoutBranches sp collapsed cs edgeX (- totalH / 2) dir)"

text \<open>
  \<^verbatim>\<open>_layoutVerticalNode(node, sign)\<close>; the node carries its own position.
  \<open>layoutVerticalChildren\<close> is the \<^verbatim>\<open>forEach\<close> loop with its running \<^verbatim>\<open>x\<close>.
\<close>

fun layoutVerticalNode :: "spacingConsts \<Rightarrow> nat set \<Rightarrow> node \<Rightarrow> real \<Rightarrow> node"
  and layoutVerticalChildren :: "spacingConsts \<Rightarrow> nat set \<Rightarrow> node list \<Rightarrow> real \<Rightarrow> real \<Rightarrow> real \<Rightarrow> node list"
where
  "layoutVerticalNode sp collapsed (Node i cs) sign =
     (if cs = [] \<or> nid i \<in> collapsed then Node i cs
      else
        let edgeY = pos_y i + sign * (height i / 2 + sp_verticalSpacingY sp);
            totalW = sum_list (map (subtreeWidth sp collapsed) cs)
        in Node i (layoutVerticalChildren sp collapsed cs (pos_x i - totalW / 2) edgeY sign))"
| "layoutVerticalChildren sp collapsed [] xl edgeY sign = []"
| "layoutVerticalChildren sp collapsed (Node ci ccs # rest) xl edgeY sign =
     (let w = subtreeWidth sp collapsed (Node ci ccs);
          ci' = ci \<lparr> pos_x := xl + w / 2, pos_y := edgeY + sign * height ci / 2 \<rparr>
      in layoutVerticalNode sp collapsed (Node ci' ccs) sign #
         layoutVerticalChildren sp collapsed rest (xl + w) edgeY sign)"

text \<open>\<^verbatim>\<open>_layoutTree(root)\<close>, returning the positioned tree.\<close>

definition layoutTree :: "options \<Rightarrow> spacingConsts \<Rightarrow> nat set \<Rightarrow> node \<Rightarrow> node" where
  "layoutTree opts sp collapsed rt =
     (let ri = (info rt) \<lparr> pos_x := 0, pos_y := 0 \<rparr>
      in if layout opts = js ''down'' \<or> layout opts = js ''up''
         then layoutVerticalNode sp collapsed (Node ri (children rt))
                (if layout opts = js ''down'' then 1 else - 1)
         else Node ri
                (layoutSide opts sp collapsed ri
                   (layoutSide opts sp collapsed ri (children rt) (js ''right''))
                   (js ''left'')))"

text \<open>
  The nodes that are drawn, in drawing order: \<^verbatim>\<open>_drawTree\<close> draws the root and
  \<^verbatim>\<open>_drawSubtree\<close> the children of every node that is not collapsed.
\<close>

fun drawSubtree :: "nat set \<Rightarrow> node \<Rightarrow> node_info list" where
  "drawSubtree collapsed (Node i cs) =
     (if nid i \<in> collapsed then []
      else concat (map (\<lambda>c. info c # drawSubtree collapsed c) cs))"

definition drawTree :: "nat set \<Rightarrow> node \<Rightarrow> node_info list" where
  "drawTree collapsed rt = info rt # drawSubtree collapsed rt"

text \<open>
  The steps of \<^verbatim>\<open>_renderInternal\<close> up to drawing: build, assign directions, size, space,
  position.
\<close>

definition layoutPass :: "options \<Rightarrow> (jsstring \<Rightarrow> real \<Rightarrow> real) \<Rightarrow> nat set \<Rightarrow> json \<Rightarrow> error + node" where
  "layoutPass opts measurer collapsed data =
     (case buildRoot data of
        Inl e \<Rightarrow> Inl e
      | Inr t \<Rightarrow>
          (case computeSizes opts measurer (assignDirections opts t) of
             Inl e \<Rightarrow> Inl e
           | Inr t' \<Rightarrow> Inr (layoutTree opts (computeAdaptiveSpacing opts t') collapsed t')))"

text \<open>The box of a node: width by height, centred at its position.\<close>

definition boxLeft :: "node_info \<Rightarrow> real" where
  "boxLeft n = pos_x n - width n / 2"

definition boxRight :: "node_info \<Rightarrow> real" where
  "boxRight n = pos_x n + width n / 2"

definition boxTop :: "node_info \<Rightarrow> real" where
  "boxTop n = pos_y n - height n / 2"

definition boxBottom :: "node_info \<Rightarrow> real" where
  "boxBottom n = pos_y n + height n / 2"

definition interior :: "node_info \<Rightarrow> (real \<times> real) set" where
  "interior n = {(px, py). boxLeft n < px \<and> px < boxRight n \<and> boxTop n < py \<and> py < boxBottom n}"

text \<open>Two boxes overlap when their interiors meet.\<close>

definition overlaps :: "node_info \<Rightarrow> node_info \<Rightarrow> bool" where
  "overlaps a b \<longleftrightarrow>
     max (boxLeft a) (boxLeft b) < min (boxRight a) (boxRight b) \<and>
     max (boxTop a) (boxTop b) < min (boxBottom a) (boxBottom b)"

text \<open>No two nodes at different places of the list overlap.\<close>

definition noOverlap :: "node_info list \<Rightarrow> bool" where
  "noOverlap ns = sorted_wrt (\<lambda>a b. \<not> overlaps a b) ns"

text \<open>The tree with the children of every collapsed node removed.\<close>

fun hideCollapsed :: "nat set \<Rightarrow> node \<Rightarrow> node" where
  "hideCollapsed collapsed (Node i cs) =
     Node i (if nid i \<in> collapsed then [] else map (hideCollapsed collapsed) cs)"

text \<open>Example data for the layout: a sized node, effective gaps, and a tree whose first
  branch has a tall child.\<close>

definition exampleBox :: "nat \<Rightarrow> nat \<Rightarrow> json \<Rightarrow> real \<Rightarrow> real \<Rightarrow> node_info" where
  "exampleBox k d dir w h =
     (newNode (JObj [(js ''direction'', dir), (js ''topic'', JStr (js ''x''))]) 0 d k)
       \<lparr> width := w, height := h \<rparr>"

definition exampleSp :: spacingConsts where
  "exampleSp = \<lparr> sp_branchSpacingX = 99, sp_subSpacingX = 77, sp_verticalSpacingY = 60,
       sp_horizontalSpacing = 30, sp_verticalSpacing = 50 \<rparr>"

definition tallGrandchild :: node where
  "tallGrandchild =
     Node (exampleBox 0 0 JNull 100 40)
       [Node (exampleBox 1 1 (JStr (js ''right'')) 80 30)
          [Node (exampleBox 2 2 (JStr (js ''right'')) 60 200) []],
        Node (exampleBox 3 1 (JStr (js ''right'')) 80 30) []]"

text \<open>Every node of the tree has a width and a height that are not negative.\<close>

definition sizesOk :: "node \<Rightarrow> bool" where
  "sizesOk t \<longleftrightarrow> (\<forall>n\<in>set (preorder t). 0 \<le> width n \<and> 0 \<le> height n)"

text \<open>The box lies on the far side of the anchor \<open>a\<close>: right of it when the direction is
  \<^verbatim>\<open>'right'\<close>, left of it otherwise.\<close>

definition besideX :: "jsstring \<Rightarrow> real \<Rightarrow> node_info \<Rightarrow> bool" where
  "besideX dir a b \<longleftrightarrow> (if dir = js ''right'' then a \<le> boxLeft b else boxRight b \<le> a)"

text \<open>The anchor \<^verbatim>\<open>edgeX\<close> that \<^verbatim>\<open>_layoutSide\<close> computes for the branches of a side.\<close>

definition edgeOf :: "options \<Rightarrow> spacingConsts \<Rightarrow> node_info \<Rightarrow> jsstring \<Rightarrow> real" where
  "edgeOf opts sp rootInfo dir =
     (if dir = js ''right''
      then (if centerEdge opts = js ''side''
            then width rootInfo / 2 + sp_branchSpacingX sp
            else sp_branchSpacingX sp)
      else (if centerEdge opts = js ''side''
            then - (width rootInfo / 2 + sp_branchSpacingX sp)
            else - sp_branchSpacingX sp))"

text \<open>The box lies beyond the level \<open>e\<close> in the direction of growth (\<open>sign\<close> is 1 for
  down and -1 for up).\<close>

definition belowY :: "real \<Rightarrow> real \<Rightarrow> node_info \<Rightarrow> bool" where
  "belowY sign e b \<longleftrightarrow> sign * e \<le> sign * pos_y b - height b / 2"

text \<open>A valid configuration: a positive spacing multiplier and positive base gaps.\<close>

definition validConfig :: "options \<Rightarrow> bool" where
  "validConfig opts \<longleftrightarrow>
     0 < spacingMultiplier opts \<and> 0 < branchSpacingX opts \<and> 0 < subSpacingX opts \<and>
     0 < verticalSpacing opts \<and> 0 < verticalSpacingY opts \<and> 0 < horizontalSpacing opts"

text \<open>A compact configuration whose branches are anchored at the centre of the root; an
  input with a wide root topic and one branch; a measurement of sixty pixels for each
  character.\<close>

definition wideOptions :: options where
  "wideOptions = DEFAULT_OPTIONS \<lparr> centerEdge := js ''vertical'', spacing := JNum 0.3 \<rparr>"

definition wideRoot :: json where
  "wideRoot = JObj [(js ''topic'', JStr (js ''aaaa'')),
     (js ''children'', JArr [JObj [(js ''topic'', JStr (js ''bb''))]])]"

definition sixtyPerChar :: "jsstring \<Rightarrow> real \<Rightarrow> real" where
  "sixtyPerChar t fs = 60 * real (length t)"

text \<open>A measurement that returns a negative width for every string.\<close>

definition negativeMeasurer :: "jsstring \<Rightarrow> real \<Rightarrow> real" where
  "negativeMeasurer t fs = - 1"

text \<open>Style profiles with non-negative font size, paddings and maximal width, and a
  non-negative line height: sizing then yields boxes of non-negative width and height.\<close>

definition validStyle :: "style \<Rightarrow> bool" where
  "validStyle st \<longleftrightarrow> 0 \<le> fontSize st \<and> 0 \<le> paddingX st \<and> 0 \<le> paddingY st \<and> 0 \<le> maxWidth st"

definition validStyles :: "options \<Rightarrow> bool" where
  "validStyles opts \<longleftrightarrow>
     0 \<le> lineHeight opts \<and> validStyle (center opts) \<and> validStyle (branch opts) \<and>
     validStyle (leaf opts)"

section \<open>Properties\<close>

declare buildTree.simps [simp del] nodeData.simps [simp del] bitLength.simps [simp del]

subsection \<open>Tree building\<close>

lemma upt_append_upt: "a \<le> b \<Longrightarrow> b \<le> c \<Longrightarrow> [a..<b] @ [b..<c] = [a..<c]"
  by (metis le_Suc_ex upt_add_eq_append)

lemma buildTree_ids_aux:
  "(buildTree data ci d c = Inr (t, c') \<longrightarrow>
      c < c' \<and> map nid (preorder t) = [c..<c'] \<and> c' = c + length (nodeData data))"
  "(buildChildren cds i ci d c = Inr (cs, c') \<longrightarrow>
      c \<le> c' \<and> concat (map (\<lambda>t. map nid (preorder t)) cs) = [c..<c']
      \<and> c' = c + length (concat (map nodeData cds)))"
proof (induction data ci d c and cds i ci d c arbitrary: t c' and cs c'
       rule: buildTree_buildChildren.induct)
  case (1 data ci d counter)
  show ?case
  proof
    assume b: "buildTree data ci d counter = Inr (t, c')"
    then have nn: "data \<noteq> JNull"
      by (auto simp: buildTree.simps split: if_splits)
    show "counter < c' \<and> map nid (preorder t) = [counter..<c'] \<and> c' = counter + length (nodeData data)"
    proof (cases "\<exists>cds. field data (js ''children'') = Some (JArr cds)")
      case True
      then obtain cds where f: "field data (js ''children'') = Some (JArr cds)" by blast
      from b nn f obtain cs where
        bc: "buildChildren cds 0 ci d (Suc counter) = Inr (cs, c')"
        and t: "t = Node (newNode data ci d counter) cs"
        by (auto simp: buildTree.simps split: sum.splits)
      from "1.IH" [OF nn f] bc
      have "Suc counter \<le> c'"
        and "concat (map (\<lambda>t. map nid (preorder t)) cs) = [Suc counter..<c']"
        and "c' = Suc counter + length (concat (map nodeData cds))"
        by blast+
      note h = this
      have "map nid (preorder t) = counter # [Suc counter..<c']"
        using t h(2) by (simp add: newNode_def map_concat comp_def)
      also have "\<dots> = [counter..<c']"
        using h(1) by (simp add: upt_conv_Cons)
      finally have "map nid (preorder t) = [counter..<c']" .
      moreover have "length (nodeData data) = Suc (length (concat (map nodeData cds)))"
        using f by (simp add: nodeData.simps [of data])
      ultimately show ?thesis
        using h(1) h(3) by simp
    next
      case False
      with b nn have "t = Node (newNode data ci d counter) []" "c' = Suc counter"
        by (auto simp: buildTree.simps split: option.splits json.splits)
      moreover from False have "nodeData data = [data]"
        by (auto simp: nodeData.simps [of data] split: option.splits json.splits)
      ultimately show ?thesis
        by (simp add: newNode_def)
    qed
  qed
next
  case (2 i ci d counter)
  show ?case by simp
next
  case (3 childData rest i ci d counter)
  show ?case
  proof
    assume b: "buildChildren (childData # rest) i ci d counter = Inr (cs, c')"
    then obtain c1 n1 cs1 where
      b1: "buildTree childData (if d = 0 then int (i mod length DEFAULT_COLORS) else ci) (d + 1) counter = Inr (c1, n1)"
      and b2: "buildChildren rest (i + 1) ci d n1 = Inr (cs1, c')"
      and cs: "cs = c1 # cs1"
      by (auto split: sum.splits)
    from "3.IH"(1) b1 have h1: "counter < n1" "map nid (preorder c1) = [counter..<n1]"
      "n1 = counter + length (nodeData childData)"
      by blast+
    from "3.IH"(2) [OF b1 refl] b2
    have h2: "n1 \<le> c'" "concat (map (\<lambda>t. map nid (preorder t)) cs1) = [n1..<c']"
      "c' = n1 + length (concat (map nodeData rest))"
      by blast+
    show "counter \<le> c' \<and> concat (map (\<lambda>t. map nid (preorder t)) cs) = [counter..<c']
      \<and> c' = counter + length (concat (map nodeData (childData # rest)))"
      using h1 h2 cs by (simp add: upt_append_upt)
  qed
qed


lemma buildTree_succeeds_aux:
  "JNull \<notin> set (nodeData data) \<longrightarrow> (\<exists>t c'. buildTree data ci d c = Inr (t, c'))"
  "JNull \<notin> set (concat (map nodeData cds)) \<longrightarrow> (\<exists>cs c'. buildChildren cds i ci d c = Inr (cs, c'))"
proof (induction data ci d c and cds i ci d c rule: buildTree_buildChildren.induct)
  case (1 data ci d counter)
  show ?case
  proof
    assume a: "JNull \<notin> set (nodeData data)"
    then have nn: "data \<noteq> JNull"
      by (auto simp: nodeData.simps [of data])
    show "\<exists>t c'. buildTree data ci d counter = Inr (t, c')"
    proof (cases "\<exists>cds. field data (js ''children'') = Some (JArr cds)")
      case True
      then obtain cds where f: "field data (js ''children'') = Some (JArr cds)" by blast
      with a have "JNull \<notin> set (concat (map nodeData cds))"
        by (auto simp: nodeData.simps [of data])
      with "1.IH" [OF nn f] obtain cs c' where
        "buildChildren cds 0 ci d (Suc counter) = Inr (cs, c')" by blast
      with nn f show ?thesis
        by (simp add: buildTree.simps)
    next
      case False
      with nn show ?thesis
        by (auto simp: buildTree.simps split: option.splits json.splits)
    qed
  qed
next
  case (2 i ci d counter)
  show ?case by simp
next
  case (3 childData rest i ci d counter)
  show ?case
  proof
    assume a: "JNull \<notin> set (concat (map nodeData (childData # rest)))"
    with "3.IH"(1) obtain c1 n1 where
      b1: "buildTree childData (if d = 0 then int (i mod length DEFAULT_COLORS) else ci) (d + 1) counter = Inr (c1, n1)"
      by auto
    from a "3.IH"(2) [OF b1 refl] obtain cs1 c' where
      "buildChildren rest (i + 1) ci d n1 = Inr (cs1, c')"
      by auto
    with b1 show "\<exists>cs c'. buildChildren (childData # rest) i ci d counter = Inr (cs, c')"
      by simp
  qed
qed

lemma buildTree_error_aux:
  "buildTree data ci d c = Inl e \<longrightarrow> e = TypeError"
  "buildChildren cds i ci d c = Inl e \<longrightarrow> e = TypeError"
proof (induction data ci d c and cds i ci d c rule: buildTree_buildChildren.induct)
  case (1 data ci d counter)
  show ?case
  proof
    assume b: "buildTree data ci d counter = Inl e"
    show "e = TypeError"
    proof (cases "data = JNull")
      case True
      with b show ?thesis by (simp add: buildTree.simps)
    next
      case nn: False
      show ?thesis
      proof (cases "\<exists>cds. field data (js ''children'') = Some (JArr cds)")
        case True
        then obtain cds where f: "field data (js ''children'') = Some (JArr cds)" by blast
        with b nn have "buildChildren cds 0 ci d (Suc counter) = Inl e"
          by (auto simp: buildTree.simps split: sum.splits)
        with "1.IH" [OF nn f] show ?thesis by blast
      next
        case False
        with b nn show ?thesis
          by (auto simp: buildTree.simps split: option.splits json.splits)
      qed
    qed
  qed
next
  case (2 i ci d counter)
  show ?case by simp
next
  case (3 childData rest i ci d counter)
  let ?ci = "if d = 0 then int (i mod length DEFAULT_COLORS) else ci"
  show ?case
  proof
    assume b: "buildChildren (childData # rest) i ci d counter = Inl e"
    show "e = TypeError"
    proof (cases "buildTree childData ?ci (d + 1) counter")
      case (Inl e1)
      with b have "e1 = e" by simp
      with Inl "3.IH"(1) show ?thesis by blast
    next
      case (Inr p)
      obtain c1 n1 where p: "p = (c1, n1)" by (cases p)
      with b Inr have "buildChildren rest (i + 1) ci d n1 = Inl e"
        by (auto split: sum.splits)
      with "3.IH"(2) [OF Inr [unfolded p] refl] show ?thesis by blast
    qed
  qed
qed

lemma buildTree_depths_aux:
  "buildTree data ci d c = Inr (t, c') \<longrightarrow> depthsFrom d t"
  "buildChildren cds i ci d c = Inr (cs, c') \<longrightarrow> (\<forall>t\<in>set cs. depthsFrom (Suc d) t)"
proof (induction data ci d c and cds i ci d c arbitrary: t c' and cs c'
       rule: buildTree_buildChildren.induct)
  case (1 data ci d counter)
  show ?case
  proof
    assume b: "buildTree data ci d counter = Inr (t, c')"
    then have nn: "data \<noteq> JNull"
      by (auto simp: buildTree.simps split: if_splits)
    show "depthsFrom d t"
    proof (cases "\<exists>cds. field data (js ''children'') = Some (JArr cds)")
      case True
      then obtain cds where f: "field data (js ''children'') = Some (JArr cds)" by blast
      from b nn f obtain cs where
        bc: "buildChildren cds 0 ci d (Suc counter) = Inr (cs, c')"
        and t: "t = Node (newNode data ci d counter) cs"
        by (auto simp: buildTree.simps split: sum.splits)
      from "1.IH" [OF nn f] bc have "\<forall>t\<in>set cs. depthsFrom (Suc d) t" by blast
      with t show ?thesis by (simp add: newNode_def)
    next
      case False
      with b nn have "t = Node (newNode data ci d counter) []"
        by (auto simp: buildTree.simps split: option.splits json.splits)
      then show ?thesis by (simp add: newNode_def)
    qed
  qed
next
  case (2 i ci d counter)
  show ?case by simp
next
  case (3 childData rest i ci d counter)
  show ?case
  proof
    assume b: "buildChildren (childData # rest) i ci d counter = Inr (cs, c')"
    then obtain c1 n1 cs1 where
      b1: "buildTree childData (if d = 0 then int (i mod length DEFAULT_COLORS) else ci) (d + 1) counter = Inr (c1, n1)"
      and b2: "buildChildren rest (i + 1) ci d n1 = Inr (cs1, c')"
      and cs: "cs = c1 # cs1"
      by (auto split: sum.splits)
    from "3.IH"(1) b1 have "depthsFrom (Suc d) c1" by simp
    moreover from "3.IH"(2) [OF b1 refl] b2 have "\<forall>t\<in>set cs1. depthsFrom (Suc d) t" by blast
    ultimately show "\<forall>t\<in>set cs. depthsFrom (Suc d) t"
      using cs by simp
  qed
qed

lemma buildTree_inherit_aux:
  "buildTree data ci d c = Inr (t, c') \<longrightarrow>
     colorIdx (info t) = ci \<and> (0 < d \<longrightarrow> (\<forall>n\<in>set (preorder t). colorIdx n = ci))"
  "buildChildren cds i ci d c = Inr (cs, c') \<longrightarrow>
     0 < d \<longrightarrow> (\<forall>t\<in>set cs. \<forall>n\<in>set (preorder t). colorIdx n = ci)"
proof (induction data ci d c and cds i ci d c arbitrary: t c' and cs c'
       rule: buildTree_buildChildren.induct)
  case (1 data ci d counter)
  show ?case
  proof
    assume b: "buildTree data ci d counter = Inr (t, c')"
    then have nn: "data \<noteq> JNull"
      by (auto simp: buildTree.simps split: if_splits)
    show "colorIdx (info t) = ci \<and> (0 < d \<longrightarrow> (\<forall>n\<in>set (preorder t). colorIdx n = ci))"
    proof (cases "\<exists>cds. field data (js ''children'') = Some (JArr cds)")
      case True
      then obtain cds where f: "field data (js ''children'') = Some (JArr cds)" by blast
      from b nn f obtain cs where
        bc: "buildChildren cds 0 ci d (Suc counter) = Inr (cs, c')"
        and t: "t = Node (newNode data ci d counter) cs"
        by (auto simp: buildTree.simps split: sum.splits)
      from "1.IH" [OF nn f] bc
      have "0 < d \<longrightarrow> (\<forall>t\<in>set cs. \<forall>n\<in>set (preorder t). colorIdx n = ci)" by blast
      with t show ?thesis by (auto simp: newNode_def)
    next
      case False
      with b nn have "t = Node (newNode data ci d counter) []"
        by (auto simp: buildTree.simps split: option.splits json.splits)
      then show ?thesis by (simp add: newNode_def)
    qed
  qed
next
  case (2 i ci d counter)
  show ?case by simp
next
  case (3 childData rest i ci d counter)
  show ?case
  proof (intro impI)
    assume b: "buildChildren (childData # rest) i ci d counter = Inr (cs, c')"
      and d: "0 < d"
    then obtain c1 n1 cs1 where
      b1: "buildTree childData (if d = 0 then int (i mod length DEFAULT_COLORS) else ci) (d + 1) counter = Inr (c1, n1)"
      and b2: "buildChildren rest (i + 1) ci d n1 = Inr (cs1, c')"
      and cs: "cs = c1 # cs1"
      by (auto split: sum.splits)
    from "3.IH"(1) b1 d have "\<forall>n\<in>set (preorder c1). colorIdx n = ci" by simp
    moreover from "3.IH"(2) [OF b1 refl] b2 d
    have "\<forall>t\<in>set cs1. \<forall>n\<in>set (preorder t). colorIdx n = ci" by blast
    ultimately show "\<forall>t\<in>set cs. \<forall>n\<in>set (preorder t). colorIdx n = ci"
      using cs by simp
  qed
qed

lemma buildChildren_top_colorIdx:
  "buildChildren cds i ci 0 c = Inr (cs, c') \<Longrightarrow>
     length cs = length cds \<and>
     (\<forall>k<length cs. \<forall>n\<in>set (preorder (cs ! k)).
        colorIdx n = int ((i + k) mod length DEFAULT_COLORS))"
proof (induction cds arbitrary: i c cs)
  case Nil
  then show ?case by simp
next
  case (Cons childData rest)
  from Cons.prems obtain c1 n1 cs1 where
    b1: "buildTree childData (int (i mod length DEFAULT_COLORS)) (Suc 0) c = Inr (c1, n1)"
    and b2: "buildChildren rest (Suc i) ci 0 n1 = Inr (cs1, c')"
    and cs: "cs = c1 # cs1"
    by (auto split: sum.splits)
  from buildTree_inherit_aux(1) [of childData _ "Suc 0" c c1 n1] b1
  have h1: "\<forall>n\<in>set (preorder c1). colorIdx n = int (i mod length DEFAULT_COLORS)"
    by simp
  from Cons.IH [OF b2] have h2: "length cs1 = length rest"
    "\<forall>k<length cs1. \<forall>n\<in>set (preorder (cs1 ! k)).
        colorIdx n = int ((Suc i + k) mod length DEFAULT_COLORS)"
    by blast+
  show ?case
  proof (intro conjI allI impI)
    show "length cs = length (childData # rest)" using cs h2(1) by simp
  next
    fix k assume "k < length cs"
    then show "\<forall>n\<in>set (preorder (cs ! k)). colorIdx n = int ((i + k) mod length DEFAULT_COLORS)"
      using cs h1 h2(2) by (cases k) auto
  qed
qed

lemma buildRoot_colorIdx:
  assumes "buildRoot data = Inr t"
  shows "colorIdx (info t) = - 1"
    and "k < length (children t) \<Longrightarrow> n \<in> set (preorder (children t ! k)) \<Longrightarrow>
           colorIdx n = int (k mod length DEFAULT_COLORS)"
proof -
  from assms obtain c' where b: "buildTree data (- 1) 0 0 = Inr (t, c')"
    by (auto simp: buildRoot_def split: sum.splits)
  with buildTree_inherit_aux(1) [of data "- 1" 0 0 t c']
  show "colorIdx (info t) = - 1" by simp
  assume k: "k < length (children t)" and n: "n \<in> set (preorder (children t ! k))"
  from b have nn: "data \<noteq> JNull"
    by (auto simp: buildTree.simps split: if_splits)
  show "colorIdx n = int (k mod length DEFAULT_COLORS)"
  proof (cases "\<exists>cds. field data (js ''children'') = Some (JArr cds)")
    case True
    then obtain cds where f: "field data (js ''children'') = Some (JArr cds)" by blast
    from b nn f obtain cs where
      bc: "buildChildren cds 0 (- 1) 0 (Suc 0) = Inr (cs, c')"
      and t: "t = Node (newNode data (- 1) 0 0) cs"
      by (auto simp: buildTree.simps split: sum.splits)
    from buildChildren_top_colorIdx [OF bc] k n t show ?thesis by auto
  next
    case False
    with b nn have "t = Node (newNode data (- 1) 0 0) []"
      by (auto simp: buildTree.simps split: option.splits json.splits)
    with k show ?thesis by simp
  qed
qed


lemma buildTree_builtFrom_aux:
  "(buildTree data ci d c = Inr (t, c') \<longrightarrow>
      builtFrom data t \<and>
      map topic (preorder t) =
        map (\<lambda>x. js_or (field x (js ''topic'')) (JStr [])) (nodeData data))"
  "(buildChildren cds i ci d c = Inr (cs, c') \<longrightarrow>
      list_all2 builtFrom cds cs \<and>
      concat (map (\<lambda>t. map topic (preorder t)) cs) =
        map (\<lambda>x. js_or (field x (js ''topic'')) (JStr [])) (concat (map nodeData cds)))"
proof (induction data ci d c and cds i ci d c arbitrary: t c' and cs c'
       rule: buildTree_buildChildren.induct)
  case (1 data ci d counter)
  show ?case
  proof
    assume b: "buildTree data ci d counter = Inr (t, c')"
    then have nn: "data \<noteq> JNull"
      by (auto simp: buildTree.simps split: if_splits)
    show "builtFrom data t \<and>
      map topic (preorder t) =
        map (\<lambda>x. js_or (field x (js ''topic'')) (JStr [])) (nodeData data)"
    proof (cases "\<exists>cds. field data (js ''children'') = Some (JArr cds)")
      case True
      then obtain cds where f: "field data (js ''children'') = Some (JArr cds)" by blast
      from b nn f obtain cs where
        bc: "buildChildren cds 0 ci d (Suc counter) = Inr (cs, c')"
        and t: "t = Node (newNode data ci d counter) cs"
        by (auto simp: buildTree.simps split: sum.splits)
      from "1.IH" [OF nn f] bc
      have h: "list_all2 builtFrom cds cs"
        "concat (map (\<lambda>t. map topic (preorder t)) cs) =
           map (\<lambda>x. js_or (field x (js ''topic'')) (JStr [])) (concat (map nodeData cds))"
        by blast+
      from f have ca: "childArray data = cds" by (simp add: childArray_def)
      from f have nd: "nodeData data = data # concat (map nodeData cds)"
        by (simp add: nodeData.simps [of data])
      from h(1) have 1: "builtFrom data t"
        unfolding t by (simp add: ca newNode_def)
      from h(2) have 2: "map topic (preorder t) =
          map (\<lambda>x. js_or (field x (js ''topic'')) (JStr [])) (nodeData data)"
        unfolding t nd by (simp add: newNode_def map_concat comp_def)
      from 1 2 show ?thesis ..
    next
      case False
      with b nn have t: "t = Node (newNode data ci d counter) []"
        by (auto simp: buildTree.simps split: option.splits json.splits)
      from False have ca: "childArray data = []"
        by (auto simp: childArray_def split: option.splits json.splits)
      from False have nd: "nodeData data = [data]"
        by (auto simp: nodeData.simps [of data] split: option.splits json.splits)
      show ?thesis
        unfolding t nd by (simp add: ca newNode_def)
    qed
  qed
next
  case (2 i ci d counter)
  show ?case by simp
next
  case (3 childData rest i ci d counter)
  show ?case
  proof
    assume b: "buildChildren (childData # rest) i ci d counter = Inr (cs, c')"
    then obtain c1 n1 cs1 where
      b1: "buildTree childData (if d = 0 then int (i mod length DEFAULT_COLORS) else ci) (d + 1) counter = Inr (c1, n1)"
      and b2: "buildChildren rest (i + 1) ci d n1 = Inr (cs1, c')"
      and cs: "cs = c1 # cs1"
      by (auto split: sum.splits)
    from "3.IH"(1) b1 have h1: "builtFrom childData c1"
      "map topic (preorder c1) =
        map (\<lambda>x. js_or (field x (js ''topic'')) (JStr [])) (nodeData childData)"
      by blast+
    from "3.IH"(2) [OF b1 refl] b2
    have h2: "list_all2 builtFrom rest cs1"
      "concat (map (\<lambda>t. map topic (preorder t)) cs1) =
        map (\<lambda>x. js_or (field x (js ''topic'')) (JStr [])) (concat (map nodeData rest))"
      by blast+
    show "list_all2 builtFrom (childData # rest) cs \<and>
      concat (map (\<lambda>t. map topic (preorder t)) cs) =
        map (\<lambda>x. js_or (field x (js ''topic'')) (JStr []))
          (concat (map nodeData (childData # rest)))"
      using h1 h2 cs by simp
  qed
qed

text \<open>
  C6: whenever tree building returns a tree, the tree mirrors the input: every node is
  built from its datum and the children of a node are built, one for one and in array
  order, from the datum's child array. The ids of its nodes read in depth-first preorder
  (a node before its children, children in array order) are exactly
  \<open>0, 1, \<dots>, n - 1\<close>, where \<open>n\<close> is the number of nodes the input describes, so the
  \<open>k\<close>-th node datum of the input in depth-first preorder gets the id \<open>k\<close>; the ids are
  therefore unique, and the root has id \<open>0\<close>. Tree building does return a tree for every
  input none of whose node data is \<^verbatim>\<open>null\<close>.
\<close>

theorem buildTree_ids:
  "(JNull \<notin> set (nodeData data) \<longrightarrow> (\<exists>t. buildRoot data = Inr t)) \<and>
   (\<forall>t. buildRoot data = Inr t \<longrightarrow>
      builtFrom data t \<and>
      map topic (preorder t) =
        map (\<lambda>x. js_or (field x (js ''topic'')) (JStr [])) (nodeData data) \<and>
      map nid (preorder t) = [0..<length (nodeData data)] \<and>
      distinct (map nid (preorder t)) \<and>
      nid (info t) = 0)"
proof (intro conjI allI impI)
  assume "JNull \<notin> set (nodeData data)"
  with buildTree_succeeds_aux(1) [of data "- 1" 0 0]
  show "\<exists>t. buildRoot data = Inr t"
    by (auto simp: buildRoot_def)
next
  fix t assume "buildRoot data = Inr t"
  then obtain c' where b: "buildTree data (- 1) 0 0 = Inr (t, c')"
    by (auto simp: buildRoot_def split: sum.splits)
  with buildTree_builtFrom_aux(1) [of data "- 1" 0 0 t c']
  show "builtFrom data t"
    and "map topic (preorder t) =
        map (\<lambda>x. js_or (field x (js ''topic'')) (JStr [])) (nodeData data)"
    by blast+
  from b buildTree_ids_aux(1) [of data "- 1" 0 0 t c']
  have "0 < c' \<and> map nid (preorder t) = [0..<c'] \<and> c' = 0 + length (nodeData data)"
    by blast
  then have c: "0 < c'" and ids: "map nid (preorder t) = [0..<c']"
    and n: "c' = length (nodeData data)"
    by auto
  from ids n show "map nid (preorder t) = [0..<length (nodeData data)]" by simp
  from ids show "distinct (map nid (preorder t))" by simp
  from ids c have "hd (map nid (preorder t)) = 0"
    by (simp add: upt_conv_Cons)
  then show "nid (info t) = 0" by (cases t) simp
qed

theorem buildTree_ids_witness:
  "JNull \<notin> set (nodeData exampleRoot) \<and>
   buildRoot exampleRoot = Inr exampleTree \<and>
   map nid (preorder exampleTree) = [0, 1, 2, 3] \<and>
   JNull \<notin> set (nodeData nestedRoot) \<and>
   buildRoot nestedRoot = Inr nestedTree \<and>
   builtFrom nestedRoot nestedTree \<and>
   map topic (preorder nestedTree) =
     [JStr (js ''Root''), JStr (js ''A''), JStr (js ''A1''), JStr (js ''A2''), JStr (js ''B'')] \<and>
   map nid (preorder nestedTree) = [0, 1, 2, 3, 4]"
proof -
  have b: "buildRoot exampleRoot = Inr exampleTree"
    by (simp add: buildRoot_def exampleRoot_def exampleTree_def buildTree.simps js_def
        DEFAULT_COLORS_def newNode_def)
  have n: "nodeData exampleRoot =
      [exampleRoot, JObj [(js ''topic'', JStr (js ''A''))],
       JObj [(js ''topic'', JStr (js ''B''))], JObj [(js ''topic'', JStr (js ''C''))]]"
    by (simp add: exampleRoot_def nodeData.simps js_def)
  have nn: "JNull \<notin> set (nodeData exampleRoot)"
    by (simp add: n) (simp add: exampleRoot_def)
  from buildTree_ids [of exampleRoot] b
  have "map nid (preorder exampleTree) = [0..<length (nodeData exampleRoot)]"
    by blast
  with n have i: "map nid (preorder exampleTree) = [0, 1, 2, 3]"
    by (simp add: upt_conv_Cons)
  have b2: "buildRoot nestedRoot = Inr nestedTree"
    by (simp add: buildRoot_def nestedRoot_def nestedTree_def buildTree.simps js_def
        DEFAULT_COLORS_def newNode_def)
  have n2: "nodeData nestedRoot =
      [nestedRoot,
       JObj [(js ''topic'', JStr (js ''A'')),
             (js ''children'', JArr [JObj [(js ''topic'', JStr (js ''A1''))],
                                     JObj [(js ''topic'', JStr (js ''A2''))]])],
       JObj [(js ''topic'', JStr (js ''A1''))], JObj [(js ''topic'', JStr (js ''A2''))],
       JObj [(js ''topic'', JStr (js ''B''))]]"
    by (simp add: nestedRoot_def nodeData.simps js_def)
  have nn2: "JNull \<notin> set (nodeData nestedRoot)"
    by (simp add: n2) (simp add: nestedRoot_def)
  from buildTree_ids [of nestedRoot] b2
  have m: "builtFrom nestedRoot nestedTree"
    and tp: "map topic (preorder nestedTree) =
        map (\<lambda>x. js_or (field x (js ''topic'')) (JStr [])) (nodeData nestedRoot)"
    and i2: "map nid (preorder nestedTree) = [0..<length (nodeData nestedRoot)]"
    by blast+
  from tp have tp': "map topic (preorder nestedTree) =
     [JStr (js ''Root''), JStr (js ''A''), JStr (js ''A1''), JStr (js ''A2''), JStr (js ''B'')]"
    unfolding n2 by (simp add: nestedRoot_def js_or_def js_def)
  from i2 have i2': "map nid (preorder nestedTree) = [0, 1, 2, 3, 4]"
    unfolding n2 by (simp add: upt_conv_Cons)
  from b nn i b2 nn2 m tp' i2' show ?thesis by simp
qed

text \<open>
  C7: the code takes the index of a top-level branch modulo the length of the built-in
  palette \<open>DEFAULT_COLORS\<close>, which is 10, whatever palette is configured. With a
  configured palette of three colours the fourth branch gets colour index 3 (not
  \<open>3 mod 3 = 0\<close>), and the colour read for it from the configured palette is undefined.
\<close>

theorem buildTree_colorIdx_ignores_configured_palette:
  "length (colors threeColors) = 3 \<and>
   (case buildRoot fourBranches of
      Inl e \<Rightarrow> False
    | Inr t \<Rightarrow> map (\<lambda>c. colorIdx (info c)) (children t) = [0, 1, 2, 3] \<and>
        nodeColor threeColors (info (children t ! 3)) = None)"
  by (simp add: buildRoot_def fourBranches_def buildTree.simps js_def newNode_def
      DEFAULT_COLORS_def threeColors_def DEFAULT_OPTIONS_def nodeColor_def)

text \<open>
  C8, as the code has it: tree building never fails with a \<open>ValidationError\<close>. For a
  root that is not object-shaped it fails with the runtime's \<open>TypeError\<close> when the root
  is \<^verbatim>\<open>null\<close>, and no tree is produced; for any other such root (a number, a boolean,
  a string, an array) it does not fail and produces a single childless root node with
  an empty topic.
\<close>

theorem buildRoot_non_object:
  "buildRoot data \<noteq> Inl ValidationError \<and>
   (\<not> isObject data \<longrightarrow>
      buildRoot data =
        (if data = JNull then Inl TypeError
         else Inr (Node \<lparr> topic = JStr [], url = JNull, direction = JNull, depth = 0,
               colorIdx = - 1, nid = 0, pos_x = 0, pos_y = 0, width = 0, height = 0,
               node_fontSize = 0, node_lineHeight = 0, node_paddingX = 0,
               node_paddingY = 0, lines = [] \<rparr> [])))"
proof
  show "buildRoot data \<noteq> Inl ValidationError"
    using buildTree_error_aux(1) [of data "- 1" 0 0 ValidationError]
    by (auto simp: buildRoot_def split: sum.splits)
  show "\<not> isObject data \<longrightarrow>
      buildRoot data =
        (if data = JNull then Inl TypeError
         else Inr (Node \<lparr> topic = JStr [], url = JNull, direction = JNull, depth = 0,
               colorIdx = - 1, nid = 0, pos_x = 0, pos_y = 0, width = 0, height = 0,
               node_fontSize = 0, node_lineHeight = 0, node_paddingX = 0,
               node_paddingY = 0, lines = [] \<rparr> []))"
    by (cases data) (simp_all add: buildRoot_def buildTree.simps newNode_def js_or_def)
qed

theorem buildRoot_non_object_witness:
  "\<not> isObject JNull \<and> buildRoot JNull = Inl TypeError \<and>
   \<not> isObject (JArr [JNum 1]) \<and>
   buildRoot (JArr [JNum 1]) =
     Inr (Node \<lparr> topic = JStr [], url = JNull, direction = JNull, depth = 0,
               colorIdx = - 1, nid = 0, pos_x = 0, pos_y = 0, width = 0, height = 0,
               node_fontSize = 0, node_lineHeight = 0, node_paddingX = 0,
               node_paddingY = 0, lines = [] \<rparr> [])"
  using buildRoot_non_object [of JNull] buildRoot_non_object [of "JArr [JNum 1]"]
  by simp

theorem buildRoot_number_counterexample:
  "buildRoot (JNum 5) = Inr (Node (newNode (JNum 5) (- 1) 0 0) [])"
  by (simp add: buildRoot_def buildTree.simps)

subsection \<open>Direction assignment\<close>

lemma js_left_right [simp]: "js ''left'' \<noteq> js ''right''" "js ''right'' \<noteq> js ''left''"
  by (simp_all add: js_def)

lemma direction_propagateDir [simp]: "direction (info (propagateDir c d)) = d"
  by (cases c) simp

lemma preorder_propagateDir: "n \<in> set (preorder (propagateDir c d)) \<Longrightarrow> direction n = d"
  by (induction c d arbitrary: n rule: propagateDir.induct) auto

lemma length_assignFloats [simp]: "length (assignFloats cs rc lc) = length cs"
  by (induction cs rc lc rule: assignFloats.induct) auto

lemma assignFloats_nth:
  "i < length cs \<Longrightarrow>
     (truthy (direction (info (cs ! i))) \<longrightarrow> assignFloats cs rc lc ! i = cs ! i) \<and>
     (\<not> truthy (direction (info (cs ! i))) \<longrightarrow>
        direction (info (assignFloats cs rc lc ! i)) =
          JStr (js (if rc + length (filter (\<lambda>(c, r). unpinned c \<and> direction (info r) = JStr (js ''right''))
                             (take i (zip cs (assignFloats cs rc lc))))
                     \<le> lc + length (filter (\<lambda>(c, r). unpinned c \<and> direction (info r) = JStr (js ''left''))
                             (take i (zip cs (assignFloats cs rc lc))))
                   then ''right'' else ''left'')))"
proof (induction cs rc lc arbitrary: i rule: assignFloats.induct)
  case (1 rightCount leftCount)
  then show ?case by simp
next
  case (2 c cs rightCount leftCount)
  show ?case
  proof (cases i)
    case 0
    then show ?thesis by (simp add: setDirection_def)
  next
    case (Suc k)
    with "2.prems" have k: "k < length cs" by simp
    show ?thesis
    proof (cases "truthy (direction (info c))")
      case True
      with "2.IH"(1) [OF True k] Suc show ?thesis
        by (simp add: unpinned_def)
    next
      case f: False
      show ?thesis
      proof (cases "rightCount \<le> leftCount")
        case True
        with "2.IH"(2) [OF f True k] Suc f show ?thesis
          by (simp add: unpinned_def setDirection_def)
      next
        case False
        with "2.IH"(3) [OF f False k] Suc f show ?thesis
          by (simp add: unpinned_def setDirection_def)
      qed
    qed
  qed
qed

lemma assignFloats_insert_pinned:
  "truthy (direction (info c)) \<Longrightarrow>
   assignFloats (xs @ c # ys) rc lc =
     take (length xs) (assignFloats (xs @ ys) rc lc) @ c #
     drop (length xs) (assignFloats (xs @ ys) rc lc)"
  by (induction xs arbitrary: rc lc) auto


lemma pinned_truthy: "pinned c \<Longrightarrow> truthy (direction (info c))"
  by (auto simp: pinned_def js_def)

lemma assignDirections_auto_children:
  assumes "autoLayout opts"
  shows "children (assignDirections opts (Node r cs)) =
     map (\<lambda>c. propagateDir c (direction (info c)))
       (assignFloats cs
          (length (filter (\<lambda>c. pinned c \<and> direction (info c) = JStr (js ''right'')) cs))
          (length (filter (\<lambda>c. pinned c \<and> direction (info c) = JStr (js ''left'')) cs)))"
proof -
  have "filter (\<lambda>c. direction (info c) = JStr (js s))
          (filter (\<lambda>c. direction (info c) = JStr (js ''left'') \<or>
                        direction (info c) = JStr (js ''right'')) cs)
        = filter (\<lambda>c. pinned c \<and> direction (info c) = JStr (js s)) cs" for s
    by (simp add: pinned_def conj_commute)
  with assms show ?thesis
    by (simp add: assignDirections_def autoLayout_def Let_def)
qed

lemma count_zip_map:
  "length (filter (\<lambda>(c, d). P c \<and> d = v) (take i (zip cs (map f rs)))) =
   length (filter (\<lambda>(c, r). P c \<and> f r = v) (take i (zip cs rs)))"
proof -
  have "zip cs (map f rs) = map (\<lambda>(c, r). (c, f r)) (zip cs rs)"
    by (simp add: zip_map2)
  then have "filter (\<lambda>(c, d). P c \<and> d = v) (take i (zip cs (map f rs))) =
     map (\<lambda>(c, r). (c, f r)) (filter (\<lambda>(c, r). P c \<and> f r = v) (take i (zip cs rs)))"
    by (simp add: take_map filter_map comp_def case_prod_unfold)
  then show ?thesis by simp
qed

lemma five_elements:
  "length cs = 5 \<Longrightarrow> \<exists>a b c d e. cs = [a, b, c, d, e]"
  by (auto simp: eval_nat_numeral length_Suc_conv)

text \<open>
  C1: in auto layout mode every top-level child pinned to \<^verbatim>\<open>'left'\<close> or \<^verbatim>\<open>'right'\<close>
  keeps its side, and every unpinned top-level child, in array order, goes to the side
  that has strictly fewer assigned children at that moment, right winning ties. Five
  unpinned children and no pins give right, left, right, left, right.
\<close>

theorem assignDirections_auto:
  assumes "autoLayout opts"
  shows "let res = children (assignDirections opts (Node r cs));
             ds = map (\<lambda>c. direction (info c)) res
         in length res = length cs \<and>
            (\<forall>i<length cs.
               (pinned (cs ! i) \<longrightarrow> ds ! i = direction (info (cs ! i))) \<and>
               (unpinned (cs ! i) \<longrightarrow>
                  ds ! i = JStr (js
                    (if assignedBefore ''right'' cs ds i < assignedBefore ''left'' cs ds i
                     then ''right''
                     else if assignedBefore ''left'' cs ds i < assignedBefore ''right'' cs ds i
                     then ''left''
                     else ''right'')))) \<and>
            (length cs = 5 \<and> (\<forall>c\<in>set cs. unpinned c) \<longrightarrow>
               ds = map (\<lambda>s. JStr (js s)) [''right'', ''left'', ''right'', ''left'', ''right''])"
proof -
  define rc where "rc = length (filter (\<lambda>c. pinned c \<and> direction (info c) = JStr (js ''right'')) cs)"
  define lc where "lc = length (filter (\<lambda>c. pinned c \<and> direction (info c) = JStr (js ''left'')) cs)"
  define fl where "fl = assignFloats cs rc lc"
  define res where "res = children (assignDirections opts (Node r cs))"
  define ds where "ds = map (\<lambda>c. direction (info c)) res"
  have res: "res = map (\<lambda>c. propagateDir c (direction (info c))) fl"
    using assignDirections_auto_children [OF assms, of r cs]
    by (simp add: res_def fl_def rc_def lc_def)
  have ds: "ds = map (\<lambda>c. direction (info c)) fl"
    by (simp add: ds_def res comp_def)
  have len: "length res = length cs"
    by (simp add: res fl_def)
  have cnt: "assignedBefore ''right'' cs ds i =
               rc + length (filter (\<lambda>(c, r). unpinned c \<and> direction (info r) = JStr (js ''right''))
                              (take i (zip cs fl)))"
            "assignedBefore ''left'' cs ds i =
               lc + length (filter (\<lambda>(c, r). unpinned c \<and> direction (info r) = JStr (js ''left''))
                              (take i (zip cs fl)))" for i
    by (simp_all add: assignedBefore_def ds count_zip_map rc_def lc_def)
  have nth: "(pinned (cs ! i) \<longrightarrow> ds ! i = direction (info (cs ! i))) \<and>
             (unpinned (cs ! i) \<longrightarrow>
                ds ! i = JStr (js
                  (if assignedBefore ''right'' cs ds i < assignedBefore ''left'' cs ds i
                   then ''right''
                   else if assignedBefore ''left'' cs ds i < assignedBefore ''right'' cs ds i
                   then ''left''
                   else ''right'')))" if i: "i < length cs" for i
  proof -
    from i have dsi: "ds ! i = direction (info (fl ! i))"
      by (simp add: ds fl_def)
    from assignFloats_nth [OF i, of rc lc]
    have a: "truthy (direction (info (cs ! i))) \<longrightarrow> fl ! i = cs ! i"
      and b: "\<not> truthy (direction (info (cs ! i))) \<longrightarrow>
        direction (info (fl ! i)) =
          JStr (js (if assignedBefore ''right'' cs ds i \<le> assignedBefore ''left'' cs ds i
                   then ''right'' else ''left''))"
      unfolding fl_def [symmetric] cnt by blast+
    show ?thesis
    proof (intro conjI impI)
      assume "pinned (cs ! i)"
      with a pinned_truthy dsi show "ds ! i = direction (info (cs ! i))" by simp
    next
      assume "unpinned (cs ! i)"
      with b dsi show "ds ! i = JStr (js
                  (if assignedBefore ''right'' cs ds i < assignedBefore ''left'' cs ds i
                   then ''right''
                   else if assignedBefore ''left'' cs ds i < assignedBefore ''right'' cs ds i
                   then ''left''
                   else ''right''))"
        by (auto simp: unpinned_def)
    qed
  qed
  have five: "ds = map (\<lambda>s. JStr (js s)) [''right'', ''left'', ''right'', ''left'', ''right'']"
    if l: "length cs = 5" and u: "\<forall>c\<in>set cs. unpinned c"
  proof -
    from five_elements [OF l] obtain a b c d e where cs: "cs = [a, b, c, d, e]" by blast
    from u pinned_truthy have "\<forall>c\<in>set cs. \<not> pinned c"
      by (auto simp: unpinned_def)
    then have "rc = 0" "lc = 0"
      by (simp_all add: rc_def lc_def)
    with u cs show ?thesis
      by (simp add: ds fl_def unpinned_def setDirection_def)
  qed
  from len nth five show ?thesis
    unfolding Let_def res_def [symmetric] ds_def [symmetric] by blast
qed

lemma autoLayout_default: "autoLayout DEFAULT_OPTIONS"
  by (simp add: autoLayout_def DEFAULT_OPTIONS_def js_def)

theorem assignDirections_auto_witness:
  "autoLayout DEFAULT_OPTIONS \<and> length fiveFloats = 5 \<and> list_all unpinned fiveFloats \<and>
   map (\<lambda>c. direction (info c))
     (children (assignDirections DEFAULT_OPTIONS (Node exampleRootInfo fiveFloats))) =
     map (\<lambda>s. JStr (js s)) [''right'', ''left'', ''right'', ''left'', ''right''] \<and>
   pinned (mixedBranches ! 0) \<and> unpinned (mixedBranches ! 1) \<and>
   map (\<lambda>c. direction (info c))
     (children (assignDirections DEFAULT_OPTIONS (Node exampleRootInfo mixedBranches))) =
     map (\<lambda>s. JStr (js s)) [''left'', ''right'', ''left'', ''right'', ''right'']"
proof -
  have l: "length fiveFloats = 5"
    by (simp add: fiveFloats_def)
  have u: "list_all unpinned fiveFloats"
    by (simp add: fiveFloats_def unpinned_def exampleBranch_def newNode_def js_or_def)
  from assignDirections_auto [OF autoLayout_default, of exampleRootInfo fiveFloats]
  have "length fiveFloats = 5 \<and> (\<forall>c\<in>set fiveFloats. unpinned c) \<longrightarrow>
     map (\<lambda>c. direction (info c))
       (children (assignDirections DEFAULT_OPTIONS (Node exampleRootInfo fiveFloats))) =
     map (\<lambda>s. JStr (js s)) [''right'', ''left'', ''right'', ''left'', ''right'']"
    unfolding Let_def by blast
  with l u have five: "map (\<lambda>c. direction (info c))
       (children (assignDirections DEFAULT_OPTIONS (Node exampleRootInfo fiveFloats))) =
     map (\<lambda>s. JStr (js s)) [''right'', ''left'', ''right'', ''left'', ''right'']"
    by (simp add: list_all_iff)
  have p: "pinned (mixedBranches ! 0)" "unpinned (mixedBranches ! 1)"
    by (simp_all add: mixedBranches_def pinned_def unpinned_def exampleBranch_def newNode_def
        js_or_def js_def)
  have m: "map (\<lambda>c. direction (info c))
     (children (assignDirections DEFAULT_OPTIONS (Node exampleRootInfo mixedBranches))) =
     map (\<lambda>s. JStr (js s)) [''left'', ''right'', ''left'', ''right'', ''right'']"
    by (simp add: assignDirections_def DEFAULT_OPTIONS_def mixedBranches_def exampleBranch_def
        newNode_def js_or_def js_def setDirection_def)
  from autoLayout_default l u five p m show ?thesis by simp
qed

lemma map_take_drop_insert:
  "map f (take n l @ c # drop n l) = take n (map f l) @ f c # drop n (map f l)"
  by (simp add: take_map drop_map)

text \<open>
  C10: in auto layout mode a top-level child whose direction is a truthy value other
  than \<^verbatim>\<open>'left'\<close> and \<^verbatim>\<open>'right'\<close> is neither pinned nor balanced: the other children
  end up exactly as they do when that child is absent, so it changes neither running
  count, and its own value becomes the direction of every node of its subtree.
\<close>

theorem assignDirections_unrecognized_direction:
  assumes "autoLayout opts"
    and "truthy d" and "d \<noteq> JStr (js ''left'')" and "d \<noteq> JStr (js ''right'')"
    and "direction (info c) = d"
  shows "let res = children (assignDirections opts (Node r (xs @ c # ys)));
             others = children (assignDirections opts (Node r (xs @ ys)))
         in \<not> pinned c \<and> \<not> unpinned c \<and>
            res = take (length xs) others @ propagateDir c d # drop (length xs) others \<and>
            (\<forall>n\<in>set (preorder (res ! length xs)). direction n = d)"
proof -
  from assms have np: "\<not> pinned c" and nu: "\<not> unpinned c"
    by (simp_all add: pinned_def unpinned_def)
  define rc where "rc = length (filter (\<lambda>c. pinned c \<and> direction (info c) = JStr (js ''right'')) (xs @ ys))"
  define lc where "lc = length (filter (\<lambda>c. pinned c \<and> direction (info c) = JStr (js ''left'')) (xs @ ys))"
  define P where "P = (\<lambda>c. propagateDir c (direction (info c)))"
  have others: "children (assignDirections opts (Node r (xs @ ys))) =
      map P (assignFloats (xs @ ys) rc lc)"
    using assignDirections_auto_children [OF assms(1), of r "xs @ ys"]
    by (simp add: rc_def lc_def P_def)
  have "children (assignDirections opts (Node r (xs @ c # ys))) =
      map P (assignFloats (xs @ c # ys) rc lc)"
    using assignDirections_auto_children [OF assms(1), of r "xs @ c # ys"] np
    by (simp add: rc_def lc_def P_def)
  also have "\<dots> = map P (take (length xs) (assignFloats (xs @ ys) rc lc) @ c #
                 drop (length xs) (assignFloats (xs @ ys) rc lc))"
    using assignFloats_insert_pinned [of c xs ys rc lc] assms(2,5) by simp
  also have "\<dots> = take (length xs) (map P (assignFloats (xs @ ys) rc lc)) @ P c #
                 drop (length xs) (map P (assignFloats (xs @ ys) rc lc))"
    by (rule map_take_drop_insert)
  finally have res: "children (assignDirections opts (Node r (xs @ c # ys))) =
      take (length xs) (children (assignDirections opts (Node r (xs @ ys)))) @
      propagateDir c d #
      drop (length xs) (children (assignDirections opts (Node r (xs @ ys))))"
    using assms(5) by (simp add: others P_def)
  have len: "length (children (assignDirections opts (Node r (xs @ ys)))) = length xs + length ys"
    by (simp add: others)
  have "children (assignDirections opts (Node r (xs @ c # ys))) ! length xs = propagateDir c d"
    by (simp add: res nth_append len)
  then have "\<forall>n\<in>set (preorder (children (assignDirections opts (Node r (xs @ c # ys))) ! length xs)).
      direction n = d"
    by (simp add: preorder_propagateDir)
  with np nu res show ?thesis
    unfolding Let_def by blast
qed

theorem assignDirections_unrecognized_direction_witness:
  "autoLayout DEFAULT_OPTIONS \<and> truthy (JStr (js ''up'')) \<and>
   JStr (js ''up'') \<noteq> JStr (js ''left'') \<and> JStr (js ''up'') \<noteq> JStr (js ''right'') \<and>
   direction (info (exampleParent (JStr (js ''up'')) 2)) = JStr (js ''up'') \<and>
   map (\<lambda>c. map direction (preorder c))
     (children (assignDirections DEFAULT_OPTIONS (Node exampleRootInfo upBranches))) =
   [[JStr (js ''right''), JStr (js ''right'')], [JStr (js ''up''), JStr (js ''up'')],
    [JStr (js ''left'')]]"
proof -
  have t: "truthy (JStr (js ''up''))" "JStr (js ''up'') \<noteq> JStr (js ''left'')"
    "JStr (js ''up'') \<noteq> JStr (js ''right'')"
    by (simp_all add: js_def)
  have d: "direction (info (exampleParent (JStr (js ''up'')) 2)) = JStr (js ''up'')"
    by (simp add: exampleParent_def newNode_def js_or_def js_def)
  have o: "children (assignDirections DEFAULT_OPTIONS
              (Node exampleRootInfo ([exampleParent JNull 0] @ [exampleBranch JNull 4]))) =
           [propagateDir (exampleParent JNull 0) (JStr (js ''right'')),
            propagateDir (exampleBranch JNull 4) (JStr (js ''left''))]"
    by (simp add: assignDirections_def DEFAULT_OPTIONS_def exampleBranch_def exampleParent_def
        newNode_def js_or_def js_def setDirection_def)
  from assignDirections_unrecognized_direction [OF autoLayout_default t d,
      of exampleRootInfo "[exampleParent JNull 0]" "[exampleBranch JNull 4]"]
  have "children (assignDirections DEFAULT_OPTIONS (Node exampleRootInfo upBranches)) =
     [propagateDir (exampleParent JNull 0) (JStr (js ''right'')),
      propagateDir (exampleParent (JStr (js ''up'')) 2) (JStr (js ''up'')),
      propagateDir (exampleBranch JNull 4) (JStr (js ''left''))]"
    unfolding Let_def o by (simp add: upBranches_def)
  then have "map (\<lambda>c. map direction (preorder c))
     (children (assignDirections DEFAULT_OPTIONS (Node exampleRootInfo upBranches))) =
   [[JStr (js ''right''), JStr (js ''right'')], [JStr (js ''up''), JStr (js ''up'')],
    [JStr (js ''left'')]]"
    by (simp add: exampleParent_def exampleBranch_def)
  with autoLayout_default t d show ?thesis by simp
qed

subsection \<open>Text wrapping\<close>

lemma okLine_single: "okLine m maxPx [c]"
  by (simp add: okLine_def fits_def) linarith

lemma okLine_fit: "l \<noteq> [] \<Longrightarrow> m l \<le> maxPx \<Longrightarrow> okLine m maxPx l"
  by (simp add: okLine_def fits_def)

lemma breakLoop_ok:
  "chunk = [] \<or> okLine m maxPx chunk \<Longrightarrow> \<forall>l\<in>set chunks. okLine m maxPx l \<Longrightarrow>
   \<forall>l\<in>set (breakLoop m maxPx w chunk chunks). okLine m maxPx l"
proof (induction m maxPx w chunk chunks rule: breakLoop.induct)
  case (1 measureFn maxPx chunk chunks)
  then show ?case by auto
next
  case (2 measureFn maxPx c cs chunk chunks)
  show ?case
  proof (cases "measureFn (chunk @ [c]) \<le> maxPx")
    case True
    then have "okLine measureFn maxPx (chunk @ [c])"
      by (simp add: okLine_fit)
    then have "\<forall>l\<in>set (breakLoop measureFn maxPx cs (chunk @ [c]) chunks). okLine measureFn maxPx l"
      using "2.IH"(1) [OF refl True] "2.prems"(2) by blast
    moreover have "breakLoop measureFn maxPx (c # cs) chunk chunks =
        breakLoop measureFn maxPx cs (chunk @ [c]) chunks"
      using True by (simp add: Let_def)
    ultimately show ?thesis by simp
  next
    case False
    let ?chunks = "if chunk \<noteq> [] then chunks @ [chunk] else chunks"
    have "\<forall>l\<in>set ?chunks. okLine measureFn maxPx l"
      using "2.prems" by auto
    then have "\<forall>l\<in>set (breakLoop measureFn maxPx cs [c] ?chunks). okLine measureFn maxPx l"
      using "2.IH"(2) [OF refl False] okLine_single by blast
    moreover have "breakLoop measureFn maxPx (c # cs) chunk chunks =
        breakLoop measureFn maxPx cs [c] ?chunks"
      using False by (simp add: Let_def)
    ultimately show ?thesis by simp
  qed
qed


lemma splitWords_nonempty: "w' \<in> set (splitWords s w) \<Longrightarrow> w' \<noteq> []"
  by (induction s w rule: splitWords.induct) (auto split: if_splits)

lemma splitWords_empty_iff:
  "splitWords s w = [] \<longleftrightarrow> w = [] \<and> (\<forall>c\<in>set s. isSpace c)"
  by (induction s w rule: splitWords.induct) auto

lemma breakLoop_nonempty:
  "w \<noteq> [] \<or> chunk \<noteq> [] \<Longrightarrow> breakLoop m maxPx w chunk chunks \<noteq> []"
  by (induction m maxPx w chunk chunks rule: breakLoop.induct) (auto simp: Let_def)

lemma breakWord_ok:
  assumes "w \<noteq> []"
  shows "breakWord m maxPx w \<noteq> []" and "\<forall>l\<in>set (breakWord m maxPx w). okLine m maxPx l"
proof -
  have ne: "breakLoop m maxPx w [] [] \<noteq> []"
    using assms by (simp add: breakLoop_nonempty)
  then have eq: "breakWord m maxPx w = breakLoop m maxPx w [] []"
    by (simp add: breakWord_def Let_def)
  from ne eq show "breakWord m maxPx w \<noteq> []" by simp
  have "\<forall>l\<in>set (breakLoop m maxPx w [] []). okLine m maxPx l"
    by (rule breakLoop_ok) simp_all
  with eq show "\<forall>l\<in>set (breakWord m maxPx w). okLine m maxPx l" by simp
qed

lemma packParts_ok:
  "okState m maxPx st \<Longrightarrow> \<forall>p\<in>set parts. okLine m maxPx p \<Longrightarrow>
   okState m maxPx (packParts m maxPx parts st) \<and>
   (parts \<noteq> [] \<or> fst st \<noteq> [] \<longrightarrow> fst (packParts m maxPx parts st) \<noteq> [])"
proof (induction m maxPx parts st rule: packParts.induct)
  case (1 measureFn maxPx st)
  then show ?case by simp
next
  case (2 measureFn maxPx part parts current lns)
  let ?cand = "if current \<noteq> [] then current @ js '' '' @ part else part"
  from "2.prems"(2) have part: "okLine measureFn maxPx part"
    and rest: "\<forall>p\<in>set parts. okLine measureFn maxPx p" by simp_all
  from part have pne: "part \<noteq> []" by (simp add: okLine_def)
  then have cne: "?cand \<noteq> []" by simp
  show ?case
  proof (cases "measureFn ?cand \<le> maxPx")
    case True
    have "okLine measureFn maxPx ?cand"
      using cne True by (rule okLine_fit)
    with "2.prems"(1) have st': "okState measureFn maxPx (?cand, lns)"
      by (simp add: okState_def)
    have eq: "packParts measureFn maxPx (part # parts) (current, lns) =
        packParts measureFn maxPx parts (?cand, lns)"
      using True by (simp add: Let_def)
    from "2.IH"(1) [OF refl True st' rest] cne
    have "okState measureFn maxPx (packParts measureFn maxPx parts (?cand, lns)) \<and>
       fst (packParts measureFn maxPx parts (?cand, lns)) \<noteq> []"
      by simp
    then show ?thesis unfolding eq by blast
  next
    case False
    let ?lns = "if current \<noteq> [] then lns @ [current] else lns"
    from "2.prems"(1) part have st': "okState measureFn maxPx (part, ?lns)"
      by (auto simp: okState_def)
    have eq: "packParts measureFn maxPx (part # parts) (current, lns) =
        packParts measureFn maxPx parts (part, ?lns)"
      using False by (simp add: Let_def)
    from "2.IH"(2) [OF refl False st' rest] pne
    have "okState measureFn maxPx (packParts measureFn maxPx parts (part, ?lns)) \<and>
       fst (packParts measureFn maxPx parts (part, ?lns)) \<noteq> []"
      by simp
    then show ?thesis unfolding eq by blast
  qed
qed

lemma packWords_ok:
  "okState m maxPx st \<Longrightarrow> \<forall>w\<in>set ws. w \<noteq> [] \<Longrightarrow>
   okState m maxPx (packWords m maxPx ws st) \<and>
   (ws \<noteq> [] \<or> fst st \<noteq> [] \<longrightarrow> fst (packWords m maxPx ws st) \<noteq> [])"
proof (induction m maxPx ws st rule: packWords.induct)
  case (1 measureFn maxPx st)
  then show ?case by simp
next
  case (2 measureFn maxPx word words st)
  let ?parts = "if measureFn word > maxPx then breakWord measureFn maxPx word else [word]"
  from "2.prems"(2) have wne: "word \<noteq> []" and rest: "\<forall>w\<in>set words. w \<noteq> []" by simp_all
  have pne: "?parts \<noteq> []"
    using breakWord_ok(1) [OF wne, of measureFn maxPx] by simp
  have pok: "\<forall>p\<in>set ?parts. okLine measureFn maxPx p"
  proof (cases "measureFn word > maxPx")
    case True
    then show ?thesis
      using breakWord_ok(2) [OF wne, of measureFn maxPx] by simp
  next
    case False
    then have "okLine measureFn maxPx word"
      using wne by (simp add: okLine_fit)
    with False show ?thesis by simp
  qed
  from packParts_ok [OF "2.prems"(1) pok] pne
  have st': "okState measureFn maxPx (packParts measureFn maxPx ?parts st)"
    and ne: "fst (packParts measureFn maxPx ?parts st) \<noteq> []"
    by blast+
  from "2.IH" [OF st' rest] ne
  have "okState measureFn maxPx (packWords measureFn maxPx words (packParts measureFn maxPx ?parts st)) \<and>
     fst (packWords measureFn maxPx words (packParts measureFn maxPx ?parts st)) \<noteq> []"
    by blast
  then show ?case by simp
qed


lemma wrapText_lines:
  assumes "\<exists>c\<in>set s. \<not> isSpace c"
  shows "wrapText s maxPx m \<noteq> [] \<and> (\<forall>l\<in>set (wrapText s maxPx m). okLine m maxPx l)"
proof -
  let ?ws = "splitWords s []"
  from assms have ne: "?ws \<noteq> []"
    by (simp add: splitWords_empty_iff)
  have st: "okState m maxPx ([], [])"
    by (simp add: okState_def)
  have ws: "\<forall>w\<in>set ?ws. w \<noteq> []"
    using splitWords_nonempty by blast
  from packWords_ok [OF st ws] ne
  have ok: "okState m maxPx (packWords m maxPx ?ws ([], []))"
    and cur: "fst (packWords m maxPx ?ws ([], [])) \<noteq> []"
    by blast+
  obtain current lns where p: "packWords m maxPx ?ws ([], []) = (current, lns)"
    by (cases "packWords m maxPx ?ws ([], [])")
  with cur ne have eq: "wrapText s maxPx m = lns @ [current]"
    by (simp add: wrapText_def)
  from ok p cur have "\<forall>l\<in>set (lns @ [current]). okLine m maxPx l"
    by (auto simp: okState_def)
  with eq show ?thesis by simp
qed

text \<open>
  C4, as the code has it: \<^verbatim>\<open>wrapText\<close> returns at least one line. For an empty or
  white-space-only string that is the single empty line, returned without being
  measured. For any other string every returned line is non-empty and its measured width
  does not exceed the budget, except a line of a single character whose own measured
  width exceeds the budget.
\<close>

theorem wrapText_fits:
  "wrapText s maxPx measureFn \<noteq> [] \<and>
   ((\<forall>c\<in>set s. isSpace c) \<longrightarrow> wrapText s maxPx measureFn = [[]]) \<and>
   ((\<exists>c\<in>set s. \<not> isSpace c) \<longrightarrow>
      (\<forall>l\<in>set (wrapText s maxPx measureFn). l \<noteq> [] \<and> fits measureFn maxPx l))"
proof (intro conjI impI)
  show "wrapText s maxPx measureFn \<noteq> []"
  proof (cases "\<exists>c\<in>set s. \<not> isSpace c")
    case True
    from wrapText_lines [OF this] show ?thesis by blast
  next
    case False
    then have "splitWords s [] = []"
      by (simp add: splitWords_empty_iff)
    then show ?thesis by (simp add: wrapText_def)
  qed
next
  assume "\<forall>c\<in>set s. isSpace c"
  then have "splitWords s [] = []"
    by (simp add: splitWords_empty_iff)
  then show "wrapText s maxPx measureFn = [[]]"
    by (simp add: wrapText_def)
next
  assume "\<exists>c\<in>set s. \<not> isSpace c"
  from wrapText_lines [OF this, of maxPx measureFn]
  show "\<forall>l\<in>set (wrapText s maxPx measureFn). l \<noteq> [] \<and> fits measureFn maxPx l"
    by (simp add: okLine_def)
qed

lemma wrapText_example:
  "wrapText (js ''ab  cdefgh i'') 35 tenPerChar = map js [''ab'', ''cde'', ''fgh'', ''i'']"
  by (simp add: wrapText_def js_def isSpace_def tenPerChar_def breakWord_def)

lemma wrapText_example2:
  "wrapText (js ''ab'') 5 tenPerChar = map js [''a'', ''b'']"
  by (simp add: wrapText_def js_def isSpace_def tenPerChar_def breakWord_def)

theorem wrapText_fits_witness:
  "list_ex (\<lambda>c. \<not> isSpace c) (js ''ab  cdefgh i'') \<and>
   wrapText (js ''ab  cdefgh i'') 35 tenPerChar = map js [''ab'', ''cde'', ''fgh'', ''i''] \<and>
   list_all (\<lambda>l. l \<noteq> [] \<and> fits tenPerChar 35 l) (map js [''ab'', ''cde'', ''fgh'', ''i'']) \<and>
   wrapText (js ''ab'') 5 tenPerChar = map js [''a'', ''b''] \<and>
   list_all (\<lambda>l. length l = 1 \<and> 5 < tenPerChar l \<and> fits tenPerChar 5 l) (map js [''a'', ''b'']) \<and>
   list_all isSpace (js ''  '') \<and>
   wrapText (js ''  '') 35 tenPerChar = [[]]"
proof -
  have a: "list_ex (\<lambda>c. \<not> isSpace c) (js ''ab  cdefgh i'')"
    by (simp add: js_def isSpace_def)
  then have a': "\<exists>c\<in>set (js ''ab  cdefgh i''). \<not> isSpace c"
    by (simp add: list_ex_iff)
  have b: "list_ex (\<lambda>c. \<not> isSpace c) (js ''ab'')"
    by (simp add: js_def isSpace_def)
  then have b': "\<exists>c\<in>set (js ''ab''). \<not> isSpace c"
    by (simp add: list_ex_iff)
  have c: "list_all isSpace (js ''  '')"
    by (simp add: js_def isSpace_def)
  then have c': "\<forall>c\<in>set (js ''  ''). isSpace c"
    by (simp add: list_all_iff)
  from wrapText_fits [of "js ''ab  cdefgh i''" 35 tenPerChar] a'
  have "\<forall>l\<in>set (wrapText (js ''ab  cdefgh i'') 35 tenPerChar). l \<noteq> [] \<and> fits tenPerChar 35 l"
    by blast
  then have 1: "list_all (\<lambda>l. l \<noteq> [] \<and> fits tenPerChar 35 l) (map js [''ab'', ''cde'', ''fgh'', ''i''])"
    unfolding wrapText_example by (simp add: list_all_iff)
  from wrapText_fits [of "js ''ab''" 5 tenPerChar] b'
  have "\<forall>l\<in>set (wrapText (js ''ab'') 5 tenPerChar). l \<noteq> [] \<and> fits tenPerChar 5 l"
    by blast
  then have 2: "list_all (\<lambda>l. length l = 1 \<and> 5 < tenPerChar l \<and> fits tenPerChar 5 l) (map js [''a'', ''b''])"
    unfolding wrapText_example2 by (simp add: list_all_iff js_def tenPerChar_def)
  from wrapText_fits [of "js ''  ''" 35 tenPerChar] c'
  have 3: "wrapText (js ''  '') 35 tenPerChar = [[]]"
    by blast
  from a c 1 2 3 wrapText_example wrapText_example2 show ?thesis by simp
qed

theorem wrapText_empty_counterexample:
  "\<not> (\<forall>l\<in>set (wrapText [] (- 1) tenPerChar).
        tenPerChar l \<le> - 1 \<or> (length l = 1 \<and> - 1 < tenPerChar l))"
  by (simp add: wrapText_def tenPerChar_def)

subsection \<open>Double arithmetic\<close>

text \<open>The equations that evaluate the double arithmetic and the spacing at concrete
  numbers.\<close>

lemmas double_eval = double_def [unfolded Let_def] exponent_def roundEven_def [unfolded Let_def]
  pow2_def fmul_def fdiv_def bitLength.simps

lemmas computeAdaptiveSpacing_eval = computeAdaptiveSpacing_def [unfolded Let_def]

lemma pow2_pos: "0 < pow2 k"
  by (simp add: pow2_def)

lemma roundEven_nonneg: "0 \<le> x \<Longrightarrow> 0 \<le> roundEven x"
  by (simp add: roundEven_def Let_def)

lemma roundEven_near: "\<bar>of_int (roundEven x) - x\<bar> \<le> 1 / 2"
  unfolding roundEven_def Let_def by (simp; linarith)

lemma double_nonneg: "0 \<le> x \<Longrightarrow> 0 \<le> double x"
  unfolding double_def Let_def
  using pow2_pos roundEven_nonneg by (simp add: less_imp_le)

lemma fmul_nonneg: "0 \<le> x \<Longrightarrow> 0 \<le> y \<Longrightarrow> 0 \<le> fmul x y"
  by (simp add: fmul_def double_nonneg)

lemma fdiv_nonneg: "0 \<le> x \<Longrightarrow> 0 \<le> y \<Longrightarrow> 0 \<le> fdiv x y"
  by (simp add: fdiv_def double_nonneg)

lemma double_near: "\<bar>double x - x\<bar> \<le> pow2 (max (exponent x) (- 1022) - 52) / 2"
proof -
  define q where "q = pow2 (max (exponent x) (- 1022) - 52)"
  have q: "0 < q" by (simp add: q_def pow2_pos)
  have "double x - x = (of_int (roundEven (x / q)) - x / q) * q"
    using q by (simp add: double_def q_def [symmetric] Let_def algebra_simps)
  then have "\<bar>double x - x\<bar> = \<bar>of_int (roundEven (x / q)) - x / q\<bar> * q"
    using q by (simp add: abs_mult)
  also have "\<dots> \<le> 1 / 2 * q"
    using roundEven_near [of "x / q"] q by (intro mult_right_mono) simp_all
  finally show ?thesis by (simp add: q_def)
qed

lemma bitLength_bounds: "0 < n \<Longrightarrow> 2 ^ (bitLength n - 1) \<le> n \<and> n < 2 ^ bitLength n"
proof (induction n rule: bitLength.induct)
  case (1 n)
  show ?case
  proof (cases "n div 2 = 0")
    case True
    with 1 have "n = 1" by (simp add: div_eq_0_iff) 
    then show ?thesis by (simp add: bitLength.simps)
  next
    case False
    with 1 have ih: "2 ^ (bitLength (n div 2) - 1) \<le> n div 2" "n div 2 < 2 ^ bitLength (n div 2)"
      by simp_all
    from False have p: "0 < bitLength (n div 2)" by (simp add: bitLength.simps)
    from 1 have b: "bitLength n = Suc (bitLength (n div 2))" by (subst bitLength.simps) simp
    from p obtain k where k: "bitLength (n div 2) = Suc k" by (cases "bitLength (n div 2)") simp_all
    from ih show ?thesis unfolding b k by simp linarith
  qed
qed


lemma bitLength_pos: "0 < n \<Longrightarrow> 0 < bitLength n"
  by (subst bitLength.simps) simp

lemma exponent_bounds:
  assumes "x \<noteq> 0"
  shows "pow2 (exponent x) \<le> \<bar>x\<bar> \<and> \<bar>x\<bar> < pow2 (exponent x + 1)"
proof (cases "1 \<le> \<bar>x\<bar>")
  case True
  define n where "n = nat \<lfloor>\<bar>x\<bar>\<rfloor>"
  from True have n: "0 < n" by (simp add: n_def)
  from True have le: "real n \<le> \<bar>x\<bar>"
    by (simp add: n_def; linarith)
  from True have lt: "\<bar>x\<bar> < real n + 1"
    by (simp add: n_def; linarith)
  from bitLength_pos [OF n] obtain k where k: "bitLength n = Suc k"
    by (cases "bitLength n") simp_all
  from bitLength_bounds [OF n] have b: "2 ^ k \<le> n" "n < 2 ^ Suc k"
    by (simp_all add: k)
  from True have e: "exponent x = int k"
    by (simp add: exponent_def n_def [symmetric] k)
  from b(1) have "real (2 ^ k) \<le> real n"
    by (rule of_nat_mono)
  then have r1: "(2::real) ^ k \<le> real n" by simp
  from b(2) have "Suc n \<le> 2 ^ Suc k" by simp
  then have "real (Suc n) \<le> real (2 ^ Suc k)"
    by (rule of_nat_mono)
  then have r2: "real n + 1 \<le> 2 ^ Suc k" by simp
  from r1 le have a1: "2 ^ k \<le> \<bar>x\<bar>" by linarith
  from r2 lt have a2: "\<bar>x\<bar> < 2 ^ Suc k" by linarith
  have p1: "pow2 (exponent x) = 2 ^ k"
    unfolding e pow2_def by simp
  have p2: "pow2 (exponent x + 1) = 2 ^ Suc k"
    unfolding e pow2_def by (simp add: nat_add_distrib)
  from a1 a2 show ?thesis unfolding p1 p2 by simp
next
  case False
  define y where "y = 1 / \<bar>x\<bar>"
  from False assms have y: "1 < y" by (simp add: y_def)
  define m where "m = nat (\<lceil>y\<rceil> - 1)"
  from y have m: "0 < m" by (simp add: m_def; linarith)
  from y have lt: "real m < y"
    by (simp add: m_def; linarith)
  from y have le: "y \<le> real m + 1"
    by (simp add: m_def; linarith)
  from bitLength_pos [OF m] obtain k where k: "bitLength m = Suc k"
    by (cases "bitLength m") simp_all
  from bitLength_bounds [OF m] have b: "2 ^ k \<le> m" "m < 2 ^ Suc k"
    by (simp_all add: k)
  from False have e: "exponent x = - int (Suc k)"
    by (simp add: exponent_def y_def [symmetric] m_def [symmetric] k)
  from b(1) have "real (2 ^ k) \<le> real m"
    by (rule of_nat_mono)
  then have r1: "(2::real) ^ k \<le> real m" by simp
  from r1 lt have 1: "2 ^ k < y" by linarith
  from b(2) have "Suc m \<le> 2 ^ Suc k" by simp
  then have "real (Suc m) \<le> real (2 ^ Suc k)"
    by (rule of_nat_mono)
  then have r2: "real m + 1 \<le> 2 ^ Suc k" by simp
  from r2 le have 2: "y \<le> 2 ^ Suc k" by linarith
  have x: "\<bar>x\<bar> = 1 / y" using assms by (simp add: y_def)
  from y 1 have 3: "1 / y < 1 / 2 ^ k"
    by (intro divide_strict_left_mono) simp_all
  from y 2 have 4: "1 / 2 ^ Suc k \<le> 1 / y"
    by (intro divide_left_mono) simp_all
  have p1: "pow2 (exponent x) = 1 / 2 ^ Suc k"
    unfolding e pow2_def by (simp add: nat_add_distrib)
  have p2: "pow2 (exponent x + 1) = 1 / 2 ^ k"
    unfolding e pow2_def by (cases k) (simp_all add: nat_add_distrib)
  from 3 4 show ?thesis unfolding p1 p2 x by simp
qed

text \<open>The doubles of some literals, and three products of the source at them.\<close>

lemma double_literals:
  "double 0 = 0" "double 1 = 1" "double 2.5 = 2.5" "double 220 = 220"
  "double 0.45 = 8106479329266893 / 2 ^ 54"
  "double 0.35 = 6305039478318694 / 2 ^ 54"
  by (simp_all add: double_eval Let_def)

lemma fmul_examples:
  "round (fmul (double 170) (double 0.35)) = 59"
  "round (fmul (double 200) (fmul (double 1.15) (double 0.45))) = 103"
  "round (fmul (double 50) (double 0.35)) = 18"
  by (simp_all add: double_eval Let_def round_def)

subsection \<open>Adaptive spacing\<close>

lemma maxDepth_treeHeight: "depthsFrom d t \<Longrightarrow> maxDepth t = d + treeHeight t"
proof (induction t arbitrary: d)
  case (Node i cs)
  show ?case
  proof (cases "cs = []")
    case True
    with Node.prems show ?thesis by simp
  next
    case False
    have "maxDepth c = Suc d + treeHeight c" if "c \<in> set cs" for c
    proof -
      from Node.prems that have "depthsFrom (Suc d) c" by simp
      from Node.IH [OF that this] show ?thesis .
    qed
    then have "map maxDepth cs = map (\<lambda>c. Suc d + treeHeight c) cs"
      by simp
    then have "set (map maxDepth cs) = (\<lambda>n. Suc d + n) ` set (map treeHeight cs)"
      by (simp add: image_image)
    moreover have "Max ((\<lambda>n. Suc d + n) ` set (map treeHeight cs)) = Suc d + Max (set (map treeHeight cs))"
      using False by (intro mono_Max_commute [symmetric]) (auto simp: mono_def)
    ultimately show ?thesis
      using False by simp
  qed
qed

text \<open>
  C5: for a built tree (root at depth 0) the spacing uses the depth of the deepest leaf.
  In the horizontal modes the depth factor is 1 up to depth 2 and
  \<open>max 0.45 (2.5 / maxDepth)\<close> beyond; the branch gap and the sub-level gap are the base
  values times the factor multiplier times depth factor, rounded, and the other three
  gaps, the sibling gap among them, are the base values times the multiplier, rounded; at
  depth 6 the branch gap is \<open>round (base * (multiplier * 0.45))\<close>. In the vertical modes
  every gap is the base value times the multiplier, rounded. The numbers are doubles and
  the products and the quotient are those of double arithmetic, as in the source.
\<close>

theorem computeAdaptiveSpacing_depth:
  assumes "depthsFrom 0 rt"
  shows "let sm = spacingMultiplier opts;
             sp = computeAdaptiveSpacing opts rt;
             depthFactor = (if treeHeight rt \<le> 2 then 1
                            else max (double 0.45) (fdiv 2.5 (real (treeHeight rt))))
         in (verticalLayout opts \<longrightarrow>
               sp_branchSpacingX sp = of_int (round (fmul (double (branchSpacingX opts)) sm)) \<and>
               sp_subSpacingX sp = of_int (round (fmul (double (subSpacingX opts)) sm)) \<and>
               sp_verticalSpacingY sp = of_int (round (fmul (double (verticalSpacingY opts)) sm)) \<and>
               sp_horizontalSpacing sp = of_int (round (fmul (double (horizontalSpacing opts)) sm)) \<and>
               sp_verticalSpacing sp = of_int (round (fmul (double (verticalSpacing opts)) sm))) \<and>
            (\<not> verticalLayout opts \<longrightarrow>
               sp_branchSpacingX sp =
                 of_int (round (fmul (double (branchSpacingX opts)) (fmul sm depthFactor))) \<and>
               sp_subSpacingX sp =
                 of_int (round (fmul (double (subSpacingX opts)) (fmul sm depthFactor))) \<and>
               sp_verticalSpacing sp = of_int (round (fmul (double (verticalSpacing opts)) sm)) \<and>
               sp_verticalSpacingY sp = of_int (round (fmul (double (verticalSpacingY opts)) sm)) \<and>
               sp_horizontalSpacing sp = of_int (round (fmul (double (horizontalSpacing opts)) sm)) \<and>
               (treeHeight rt = 6 \<longrightarrow>
                  sp_branchSpacingX sp =
                    of_int (round (fmul (double (branchSpacingX opts)) (fmul sm (double 0.45))))))"
proof -
  from maxDepth_treeHeight [OF assms] have md: "maxDepth rt = treeHeight rt" by simp
  have six: "max (double 0.45) (fdiv 2.5 (real (6::nat))) = double 0.45"
    by (simp add: double_eval Let_def)
  have d: "double 2.5 = 2.5"
    by (simp add: double_eval Let_def)
  have df6: "(if treeHeight rt \<le> 2 then 1
              else max (double 0.45) (fdiv 2.5 (real (treeHeight rt)))) = double 0.45"
    if "treeHeight rt = 6"
    unfolding that six by simp
  have v: "verticalLayout opts \<longleftrightarrow> layout opts = js ''up'' \<or> layout opts = js ''down''"
    by (auto simp: verticalLayout_def)
  show ?thesis
  proof (cases "verticalLayout opts")
    case True
    then show ?thesis
      unfolding Let_def computeAdaptiveSpacing_def v by simp
  next
    case False
    with v have h: "\<not> (layout opts = js ''up'' \<or> layout opts = js ''down'')"
      by blast
    have b: "sp_branchSpacingX (computeAdaptiveSpacing opts rt) =
        of_int (round (fmul (double (branchSpacingX opts))
          (fmul (spacingMultiplier opts)
             (if treeHeight rt \<le> 2 then 1
              else max (double 0.45) (fdiv 2.5 (real (treeHeight rt)))))))"
      unfolding computeAdaptiveSpacing_def Let_def md d by (simp only: h if_False) simp
    have "sp_subSpacingX (computeAdaptiveSpacing opts rt) =
        of_int (round (fmul (double (subSpacingX opts))
          (fmul (spacingMultiplier opts)
             (if treeHeight rt \<le> 2 then 1
              else max (double 0.45) (fdiv 2.5 (real (treeHeight rt)))))))"
      and "sp_verticalSpacing (computeAdaptiveSpacing opts rt) =
        of_int (round (fmul (double (verticalSpacing opts)) (spacingMultiplier opts)))"
      and "sp_verticalSpacingY (computeAdaptiveSpacing opts rt) =
        of_int (round (fmul (double (verticalSpacingY opts)) (spacingMultiplier opts)))"
      and "sp_horizontalSpacing (computeAdaptiveSpacing opts rt) =
        of_int (round (fmul (double (horizontalSpacing opts)) (spacingMultiplier opts)))"
      unfolding computeAdaptiveSpacing_def Let_def md d by (simp_all only: h if_False) simp_all
    moreover have "treeHeight rt = 6 \<longrightarrow>
        sp_branchSpacingX (computeAdaptiveSpacing opts rt) =
          of_int (round (fmul (double (branchSpacingX opts))
            (fmul (spacingMultiplier opts) (double 0.45))))"
    proof
      assume "treeHeight rt = 6"
      from b df6 [OF this] show "sp_branchSpacingX (computeAdaptiveSpacing opts rt) =
          of_int (round (fmul (double (branchSpacingX opts))
            (fmul (spacingMultiplier opts) (double 0.45))))"
        by (simp only:)
    qed
    ultimately show ?thesis
      unfolding Let_def using False b by blast
  qed
qed

theorem computeAdaptiveSpacing_depth_witness:
  "depthsFrom 0 (chain 0 6) \<and> treeHeight (chain 0 6) = 6 \<and> \<not> verticalLayout DEFAULT_OPTIONS \<and>
   computeAdaptiveSpacing DEFAULT_OPTIONS (chain 0 6) =
     \<lparr> sp_branchSpacingX = 99, sp_subSpacingX = 77, sp_verticalSpacingY = 60,
       sp_horizontalSpacing = 30, sp_verticalSpacing = 50 \<rparr> \<and>
   verticalLayout downOptions \<and>
   computeAdaptiveSpacing downOptions (chain 0 6) =
     \<lparr> sp_branchSpacingX = 330, sp_subSpacingX = 255, sp_verticalSpacingY = 90,
       sp_horizontalSpacing = 45, sp_verticalSpacing = 75 \<rparr> \<and>
   \<not> verticalLayout relaxedOptions \<and>
   computeAdaptiveSpacing relaxedOptions (chain 0 6) =
     \<lparr> sp_branchSpacingX = 103, sp_subSpacingX = 88, sp_verticalSpacingY = 69,
       sp_horizontalSpacing = 35, sp_verticalSpacing = 57 \<rparr> \<and>
   depthsFrom 0 (chain 0 2) \<and> treeHeight (chain 0 2) = 2 \<and> \<not> verticalLayout compactOptions \<and>
   computeAdaptiveSpacing compactOptions (chain 0 2) =
     \<lparr> sp_branchSpacingX = 77, sp_subSpacingX = 59, sp_verticalSpacingY = 21,
       sp_horizontalSpacing = 11, sp_verticalSpacing = 18 \<rparr>"
proof -
  have six: "chain 0 6 = chain 0 (Suc (Suc (Suc (Suc (Suc (Suc 0))))))"
    by (simp add: eval_nat_numeral)
  have two: "chain 0 2 = chain 0 (Suc (Suc 0))"
    by (simp add: eval_nat_numeral)
  have d: "depthsFrom 0 (chain 0 6)"
    unfolding six by (simp add: newNode_def)
  have h: "treeHeight (chain 0 6) = 6"
    unfolding six by simp
  have d2: "depthsFrom 0 (chain 0 2)"
    unfolding two by (simp add: newNode_def)
  have h2: "treeHeight (chain 0 2) = 2"
    unfolding two by simp
  have nv: "\<not> verticalLayout DEFAULT_OPTIONS"
    by (simp add: verticalLayout_def DEFAULT_OPTIONS_def js_def)
  have v: "verticalLayout downOptions"
    by (simp add: verticalLayout_def downOptions_def)
  have nv3: "\<not> verticalLayout relaxedOptions"
    by (simp add: verticalLayout_def relaxedOptions_def DEFAULT_OPTIONS_def js_def)
  have nv4: "\<not> verticalLayout compactOptions"
    by (simp add: verticalLayout_def compactOptions_def DEFAULT_OPTIONS_def js_def)
  have m1: "spacingMultiplier DEFAULT_OPTIONS = double 1"
    by (simp add: spacingMultiplier_def DEFAULT_OPTIONS_def)
  have m2: "spacingMultiplier downOptions = double 1.5"
    by (simp add: spacingMultiplier_def downOptions_def)
  have m3: "spacingMultiplier relaxedOptions = double 1.15"
    by (simp add: spacingMultiplier_def relaxedOptions_def)
  have m4: "spacingMultiplier compactOptions = double 0.35"
    by (simp add: spacingMultiplier_def compactOptions_def DEFAULT_OPTIONS_def)
  note t1 = computeAdaptiveSpacing_depth [OF d, of DEFAULT_OPTIONS, unfolded Let_def m1 h]
  note t2 = computeAdaptiveSpacing_depth [OF d, of downOptions, unfolded Let_def m2 h]
  note t3 = computeAdaptiveSpacing_depth [OF d, of relaxedOptions, unfolded Let_def m3 h]
  note t4 = computeAdaptiveSpacing_depth [OF d2, of compactOptions, unfolded Let_def m4 h2]
  have r1: "computeAdaptiveSpacing DEFAULT_OPTIONS (chain 0 6) =
     \<lparr> sp_branchSpacingX = 99, sp_subSpacingX = 77, sp_verticalSpacingY = 60,
       sp_horizontalSpacing = 30, sp_verticalSpacing = 50 \<rparr>"
    using t1 nv by (cases "computeAdaptiveSpacing DEFAULT_OPTIONS (chain 0 6)")
      (simp add: DEFAULT_OPTIONS_def round_def double_eval Let_def)
  have r2: "computeAdaptiveSpacing downOptions (chain 0 6) =
     \<lparr> sp_branchSpacingX = 330, sp_subSpacingX = 255, sp_verticalSpacingY = 90,
       sp_horizontalSpacing = 45, sp_verticalSpacing = 75 \<rparr>"
    using t2 v by (cases "computeAdaptiveSpacing downOptions (chain 0 6)")
      (simp add: downOptions_def DEFAULT_OPTIONS_def round_def double_eval Let_def)
  have r3: "computeAdaptiveSpacing relaxedOptions (chain 0 6) =
     \<lparr> sp_branchSpacingX = 103, sp_subSpacingX = 88, sp_verticalSpacingY = 69,
       sp_horizontalSpacing = 35, sp_verticalSpacing = 57 \<rparr>"
    using t3 nv3 by (cases "computeAdaptiveSpacing relaxedOptions (chain 0 6)")
      (simp add: relaxedOptions_def DEFAULT_OPTIONS_def round_def double_eval Let_def)
  have r4: "computeAdaptiveSpacing compactOptions (chain 0 2) =
     \<lparr> sp_branchSpacingX = 77, sp_subSpacingX = 59, sp_verticalSpacingY = 21,
       sp_horizontalSpacing = 11, sp_verticalSpacing = 18 \<rparr>"
    using t4 nv4 by (cases "computeAdaptiveSpacing compactOptions (chain 0 2)")
      (simp add: compactOptions_def DEFAULT_OPTIONS_def round_def double_eval Let_def)
  from d h nv v r1 r2 nv3 r3 d2 h2 nv4 r4 show ?thesis by simp
qed

subsection \<open>Size computation\<close>

lemma computeSizes_error_aux:
  "computeSizes opts m t = Inl e \<longrightarrow> e = TypeError"
  "computeSizesEach opts m ts = Inl e \<longrightarrow> e = TypeError"
proof (induction opts m t and opts m ts rule: computeSizes_computeSizesEach.induct)
  case (1 opts measurer i cs)
  show ?case
  proof (cases "topic i")
    case (JStr t)
    from "1.IH" [OF refl refl refl refl refl refl refl refl JStr refl refl refl refl]
    show ?thesis
      by (simp add: JStr Let_def split: sum.splits)
  qed (simp_all add: Let_def)
next
  case (2 opts measurer)
  show ?case by simp
next
  case (3 opts measurer c cs)
  show ?case
  proof (cases "computeSizes opts measurer c")
    case (Inl e1)
    with "3.IH"(1) show ?thesis by simp
  next
    case (Inr c')
    with "3.IH"(2) [OF Inr] show ?thesis
      by (simp split: sum.splits)
  qed
qed

lemma computeSizes_succeeds_aux:
  "(\<forall>n\<in>set (preorder t). topicIsString n) \<longrightarrow> (\<exists>t'. computeSizes opts m t = Inr t')"
  "(\<forall>t\<in>set ts. \<forall>n\<in>set (preorder t). topicIsString n) \<longrightarrow> (\<exists>ts'. computeSizesEach opts m ts = Inr ts')"
proof (induction opts m t and opts m ts rule: computeSizes_computeSizesEach.induct)
  case (1 opts measurer i cs)
  show ?case
  proof
    assume a: "\<forall>n\<in>set (preorder (Node i cs)). topicIsString n"
    then obtain t where t: "topic i = JStr t"
      by (auto simp: topicIsString_def split: json.splits)
    from a have "\<forall>t\<in>set cs. \<forall>n\<in>set (preorder t). topicIsString n" by auto
    with "1.IH" [OF refl refl refl refl refl refl refl refl t refl refl refl refl]
    obtain cs' where "computeSizesEach opts measurer cs = Inr cs'" by blast
    with t show "\<exists>t'. computeSizes opts measurer (Node i cs) = Inr t'"
      by (simp add: Let_def)
  qed
next
  case (2 opts measurer)
  show ?case by simp
next
  case (3 opts measurer c cs)
  show ?case
  proof
    assume a: "\<forall>t\<in>set (c # cs). \<forall>n\<in>set (preorder t). topicIsString n"
    with "3.IH"(1) obtain c' where c': "computeSizes opts measurer c = Inr c'" by auto
    from a "3.IH"(2) [OF c'] obtain cs' where "computeSizesEach opts measurer cs = Inr cs'" by auto
    with c' show "\<exists>ts'. computeSizesEach opts measurer (c # cs) = Inr ts'" by simp
  qed
qed

subsection \<open>Footprints and collapsing\<close>

lemma subtreeHeight_hideCollapsed:
  "subtreeHeight sp collapsed (hideCollapsed collapsed t) = subtreeHeight sp collapsed t"
proof (induction t)
  case (Node i cs)
  have "map (subtreeHeight sp collapsed) (map (hideCollapsed collapsed) cs) =
        map (subtreeHeight sp collapsed) cs"
    using Node.IH by simp
  then show ?case
    by (simp add: Let_def del: map_map)
qed

lemma info_layoutNode:
  "info (layoutNode sp collapsed t anchorX y dir) =
     (info t) \<lparr> pos_x := (if dir = js ''right'' then anchorX + width (info t) / 2
                           else anchorX - width (info t) / 2),
                pos_y := y \<rparr>"
  by (cases t) (simp add: Let_def)

lemma layoutNode_hideCollapsed_aux:
  "hideCollapsed collapsed (layoutNode sp collapsed t anchorX y dir) =
     layoutNode sp collapsed (hideCollapsed collapsed t) anchorX y dir"
  "map (hideCollapsed collapsed) (layoutChildren sp collapsed ts anchorX cy dir) =
     layoutChildren sp collapsed (map (hideCollapsed collapsed) ts) anchorX cy dir"
proof (induction sp collapsed t anchorX y dir and sp collapsed ts anchorX cy dir
       rule: layoutNode_layoutChildren.induct)
  case (1 sp collapsed i cs anchorX y dir)
  show ?case
  proof (cases "cs = [] \<or> nid i \<in> collapsed")
    case True
    then show ?thesis by (auto simp: Let_def)
  next
    case False
    have s: "map (subtreeHeight sp collapsed) (map (hideCollapsed collapsed) cs) =
             map (subtreeHeight sp collapsed) cs"
      by (simp add: subtreeHeight_hideCollapsed)
    from "1.IH" [OF refl refl False refl refl] False show ?thesis
      by (simp add: Let_def s del: map_map)
  qed
next
  case (2 sp collapsed anchorX cy dir)
  show ?case by simp
next
  case (3 sp collapsed child rest anchorX cy dir)
  from "3.IH"(1) [OF refl] "3.IH"(2) [OF refl] show ?case
    by (simp add: Let_def subtreeHeight_hideCollapsed)
qed

text \<open>
  C2: the footprint of a subtree is height plus sibling gap when the node is collapsed or
  has no children, and otherwise the larger of the sum of its children's footprints and
  height plus sibling gap. Hence the footprint of a collapsed node does not depend on
  its children, the footprint of any tree is the footprint of the tree with the
  children of collapsed nodes removed, and positioning a subtree gives every node that
  is not hidden the same place whether or not the hidden descendants are there.
\<close>

theorem subtreeHeight_footprint:
  "subtreeHeight sp collapsed (Node i cs) =
     (if nid i \<in> collapsed \<or> cs = [] then height i + sp_verticalSpacing sp
      else max (\<Sum>c\<leftarrow>cs. subtreeHeight sp collapsed c) (height i + sp_verticalSpacing sp)) \<and>
   (nid i \<in> collapsed \<longrightarrow>
      subtreeHeight sp collapsed (Node i cs) = subtreeHeight sp collapsed (Node i cs')) \<and>
   subtreeHeight sp collapsed (hideCollapsed collapsed t) = subtreeHeight sp collapsed t \<and>
   hideCollapsed collapsed (layoutNode sp collapsed t anchorX y dir) =
     layoutNode sp collapsed (hideCollapsed collapsed t) anchorX y dir"
  using subtreeHeight_hideCollapsed [of sp collapsed t]
    layoutNode_hideCollapsed_aux(1) [of collapsed sp t anchorX y dir]
  by (auto simp: Let_def)


theorem subtreeHeight_footprint_witness:
  "1 \<in> {1 :: nat} \<and>
   subtreeHeight exampleSp {1}
     (Node (exampleBox 1 1 (JStr (js ''right'')) 80 30)
        [Node (exampleBox 2 2 (JStr (js ''right'')) 60 200) []]) = 80 \<and>
   subtreeHeight exampleSp {1} (hideCollapsed {1} tallGrandchild) = 160 \<and>
   hideCollapsed {1} (layoutNode exampleSp {1} tallGrandchild 0 0 (js ''right'')) =
   layoutNode exampleSp {1} (hideCollapsed {1} tallGrandchild) 0 0 (js ''right'') \<and>
   subtreeHeight exampleSp {1} tallGrandchild = 160 \<and>
   subtreeHeight exampleSp {} tallGrandchild = 330"
proof -
  have a: "subtreeHeight exampleSp {1} tallGrandchild = 160"
    by (simp add: tallGrandchild_def exampleSp_def exampleBox_def newNode_def)
  have b: "subtreeHeight exampleSp {} tallGrandchild = 330"
    by (simp add: tallGrandchild_def exampleSp_def exampleBox_def newNode_def)
  have n: "nid (exampleBox 1 1 (JStr (js ''right'')) 80 30) \<in> {1}"
    by (simp add: exampleBox_def newNode_def)
  note t = subtreeHeight_footprint [of exampleSp "{1}" "exampleBox 1 1 (JStr (js ''right'')) 80 30"
      "[Node (exampleBox 2 2 (JStr (js ''right'')) 60 200) []]" "[]" tallGrandchild 0 0 "js ''right''"]
  from t n have c: "subtreeHeight exampleSp {1}
     (Node (exampleBox 1 1 (JStr (js ''right'')) 80 30)
        [Node (exampleBox 2 2 (JStr (js ''right'')) 60 200) []]) = 80"
    by (simp add: exampleSp_def exampleBox_def)
  from t a have d: "subtreeHeight exampleSp {1} (hideCollapsed {1} tallGrandchild) = 160"
    by simp
  from t have e: "hideCollapsed {1} (layoutNode exampleSp {1} tallGrandchild 0 0 (js ''right'')) =
   layoutNode exampleSp {1} (hideCollapsed {1} tallGrandchild) 0 0 (js ''right'')"
    by blast
  from a b c d e show ?thesis by simp
qed

subsection \<open>Layout: no two visible nodes overlap\<close>

lemma overlaps_sym: "overlaps a b = overlaps b a"
  by (auto simp: overlaps_def max.commute min.commute)

lemma sep_x: "boxRight a \<le> boxLeft b \<Longrightarrow> \<not> overlaps a b"
  by (auto simp: overlaps_def)

lemma sep_x': "boxRight b \<le> boxLeft a \<Longrightarrow> \<not> overlaps a b"
  by (auto simp: overlaps_def)

lemma sep_y': "boxBottom b \<le> boxTop a \<Longrightarrow> \<not> overlaps a b"
  by (auto simp: overlaps_def)

lemma sep_y: "boxBottom a \<le> boxTop b \<Longrightarrow> \<not> overlaps a b"
  by (auto simp: overlaps_def)

lemma overlaps_interior: "overlaps a b \<longleftrightarrow> interior a \<inter> interior b \<noteq> {}"
proof
  assume o: "overlaps a b"
  let ?px = "(max (boxLeft a) (boxLeft b) + min (boxRight a) (boxRight b)) / 2"
  let ?py = "(max (boxTop a) (boxTop b) + min (boxBottom a) (boxBottom b)) / 2"
  from o have "(?px, ?py) \<in> interior a" "(?px, ?py) \<in> interior b"
    by (auto simp: overlaps_def interior_def)
  then show "interior a \<inter> interior b \<noteq> {}" by blast
next
  assume "interior a \<inter> interior b \<noteq> {}"
  then obtain px py where "(px, py) \<in> interior a" "(px, py) \<in> interior b" by auto
  then show "overlaps a b"
    by (auto simp: overlaps_def interior_def)
qed

lemma noOverlap_interiors:
  "noOverlap ns \<longleftrightarrow>
     (\<forall>k l. k < l \<and> l < length ns \<longrightarrow> interior (ns ! k) \<inter> interior (ns ! l) = {})"
  by (auto simp: noOverlap_def sorted_wrt_iff_nth_less overlaps_interior)

lemma noOverlap_Cons:
  "noOverlap (n # ns) \<longleftrightarrow> (\<forall>b\<in>set ns. \<not> overlaps n b) \<and> noOverlap ns"
  by (simp add: noOverlap_def)

lemma noOverlap_append:
  "noOverlap (xs @ ys) \<longleftrightarrow>
     noOverlap xs \<and> noOverlap ys \<and> (\<forall>a\<in>set xs. \<forall>b\<in>set ys. \<not> overlaps a b)"
  by (simp add: noOverlap_def sorted_wrt_append)

lemma drawSubtree_eq:
  "drawSubtree collapsed (Node i cs) =
     (if cs = [] \<or> nid i \<in> collapsed then [] else concat (map (drawTree collapsed) cs))"
  by (auto simp: drawTree_def [abs_def])

lemma sizesOk_Node:
  "sizesOk (Node i cs) \<longleftrightarrow> 0 \<le> width i \<and> 0 \<le> height i \<and> (\<forall>c\<in>set cs. sizesOk c)"
  by (auto simp: sizesOk_def)

lemma subtreeHeight_ge:
  "0 \<le> sp_verticalSpacing sp \<Longrightarrow> height (info t) \<le> subtreeHeight sp collapsed t"
  by (cases t) (auto simp: Let_def)

lemma subtreeHeight_nonneg:
  "0 \<le> sp_verticalSpacing sp \<Longrightarrow> sizesOk t \<Longrightarrow> 0 \<le> subtreeHeight sp collapsed t"
  using subtreeHeight_ge [of sp t collapsed] by (cases t) (simp add: sizesOk_Node)

lemma subtreeHeight_children:
  "\<not> (cs = [] \<or> nid i \<in> collapsed) \<Longrightarrow>
   sum_list (map (subtreeHeight sp collapsed) cs) \<le> subtreeHeight sp collapsed (Node i cs)"
  by (simp add: Let_def)

lemma sum_subtreeHeight_nonneg:
  "0 \<le> sp_verticalSpacing sp \<Longrightarrow> \<forall>c\<in>set cs. sizesOk c \<Longrightarrow>
   0 \<le> sum_list (map (subtreeHeight sp collapsed) cs)"
  by (rule sum_list_nonneg) (auto simp: subtreeHeight_nonneg)

lemma drawTree_layoutNode:
  "drawTree collapsed (layoutNode sp collapsed (Node i cs) anchorX y dir) =
     i \<lparr> pos_x := (if dir = js ''right'' then anchorX + width i / 2 else anchorX - width i / 2),
         pos_y := y \<rparr> #
     (if cs = [] \<or> nid i \<in> collapsed then []
      else concat (map (drawTree collapsed)
             (layoutChildren sp collapsed cs
                (if dir = js ''right''
                 then (if dir = js ''right'' then anchorX + width i / 2 else anchorX - width i / 2)
                      + width i / 2 + sp_subSpacingX sp
                 else (if dir = js ''right'' then anchorX + width i / 2 else anchorX - width i / 2)
                      - width i / 2 - sp_subSpacingX sp)
                (y - sum_list (map (subtreeHeight sp collapsed) cs) / 2) dir)))"
  by (simp add: Let_def drawTree_def [abs_def])

lemma layoutNode_ok_aux:
  assumes sub: "0 \<le> sp_subSpacingX sp" and vs: "0 \<le> sp_verticalSpacing sp"
  shows "sizesOk t \<longrightarrow>
           (\<forall>b\<in>set (drawTree collapsed (layoutNode sp collapsed t anchorX y dir)).
               y - subtreeHeight sp collapsed t / 2 \<le> boxTop b \<and>
               boxBottom b \<le> y + subtreeHeight sp collapsed t / 2 \<and>
               besideX dir anchorX b) \<and>
           noOverlap (drawTree collapsed (layoutNode sp collapsed t anchorX y dir))"
    and "(\<forall>t\<in>set ts. sizesOk t) \<longrightarrow>
           (\<forall>b\<in>set (concat (map (drawTree collapsed)
                        (layoutChildren sp collapsed ts anchorX cy dir))).
               cy \<le> boxTop b \<and>
               boxBottom b \<le> cy + sum_list (map (subtreeHeight sp collapsed) ts) \<and>
               besideX dir anchorX b) \<and>
           noOverlap (concat (map (drawTree collapsed)
                        (layoutChildren sp collapsed ts anchorX cy dir)))"
  using assms
proof (induction sp collapsed t anchorX y dir and sp collapsed ts anchorX cy dir
       rule: layoutNode_layoutChildren.induct)
  case (1 sp collapsed i cs anchorX y dir)
  let ?nx = "if dir = js ''right'' then anchorX + width i / 2 else anchorX - width i / 2"
  let ?i' = "i \<lparr> pos_x := ?nx, pos_y := y \<rparr>"
  let ?na = "if dir = js ''right'' then ?nx + width i / 2 + sp_subSpacingX sp
             else ?nx - width i / 2 - sp_subSpacingX sp"
  let ?T = "sum_list (map (subtreeHeight sp collapsed) cs)"
  let ?f = "subtreeHeight sp collapsed (Node i cs)"
  let ?cs' = "layoutChildren sp collapsed cs ?na (y - ?T / 2) dir"
  show ?case
  proof
    assume ok: "sizesOk (Node i cs)"
    then have w: "0 \<le> width i" and h: "0 \<le> height i" and cok: "\<forall>c\<in>set cs. sizesOk c"
      by (simp_all add: sizesOk_Node)
    from subtreeHeight_ge [OF "1.prems"(2), of "Node i cs" collapsed]
    have fge: "height i \<le> ?f" by simp
    have own: "y - ?f / 2 \<le> boxTop ?i'" "boxBottom ?i' \<le> y + ?f / 2" "besideX dir anchorX ?i'"
      using fge w by (simp_all add: boxTop_def boxBottom_def boxLeft_def boxRight_def besideX_def)
    show "(\<forall>b\<in>set (drawTree collapsed (layoutNode sp collapsed (Node i cs) anchorX y dir)).
               y - ?f / 2 \<le> boxTop b \<and> boxBottom b \<le> y + ?f / 2 \<and> besideX dir anchorX b) \<and>
           noOverlap (drawTree collapsed (layoutNode sp collapsed (Node i cs) anchorX y dir))"
    proof (cases "cs = [] \<or> nid i \<in> collapsed")
      case True
      then have "drawTree collapsed (layoutNode sp collapsed (Node i cs) anchorX y dir) = [?i']"
        by (simp only: drawTree_layoutNode if_True)
      with own show ?thesis
        by (simp add: noOverlap_def)
    next
      case False
      then have dt: "drawTree collapsed (layoutNode sp collapsed (Node i cs) anchorX y dir) =
          ?i' # concat (map (drawTree collapsed) ?cs')"
        by (simp only: drawTree_layoutNode if_False)
      from "1.IH" [OF refl refl False refl refl "1.prems"] cok
      have kids: "\<forall>b\<in>set (concat (map (drawTree collapsed) ?cs')).
               y - ?T / 2 \<le> boxTop b \<and> boxBottom b \<le> y - ?T / 2 + ?T \<and> besideX dir ?na b"
        and kno: "noOverlap (concat (map (drawTree collapsed) ?cs'))"
        by blast+
      from subtreeHeight_children [OF False, of sp] have Tf: "?T \<le> ?f" .
      have kid: "y - ?f / 2 \<le> boxTop b \<and> boxBottom b \<le> y + ?f / 2 \<and> besideX dir anchorX b \<and>
                 \<not> overlaps ?i' b"
        if b: "b \<in> set (concat (map (drawTree collapsed) ?cs'))" for b
      proof -
        from kids b have b1: "y - ?T / 2 \<le> boxTop b" and b2: "boxBottom b \<le> y - ?T / 2 + ?T"
          and b3: "besideX dir ?na b" by blast+
        from b1 b2 Tf have band: "y - ?f / 2 \<le> boxTop b" "boxBottom b \<le> y + ?f / 2"
          by simp_all
        show ?thesis
        proof (cases "dir = js ''right''")
          case True
          with b3 have "anchorX + width i + sp_subSpacingX sp \<le> boxLeft b"
            by (simp add: besideX_def)
          with w "1.prems"(1) have l: "anchorX \<le> boxLeft b" "boxRight ?i' \<le> boxLeft b"
            using True by (simp_all add: boxRight_def)
          from l(2) have "\<not> overlaps ?i' b" by (rule sep_x)
          with band True l(1) show ?thesis
            by (simp add: besideX_def)
        next
          case False
          with b3 have "boxRight b \<le> anchorX - width i - sp_subSpacingX sp"
            by (simp add: besideX_def)
          with w "1.prems"(1) have l: "boxRight b \<le> anchorX" "boxRight b \<le> boxLeft ?i'"
            using False by (simp_all add: boxLeft_def)
          from l(2) have "\<not> overlaps ?i' b" by (rule sep_x')
          with band False l(1) show ?thesis
            by (simp add: besideX_def)
        qed
      qed
      from own kid kno show ?thesis
        unfolding dt by (simp add: noOverlap_Cons)
    qed
  qed
next
  case (2 sp collapsed anchorX cy dir)
  show ?case by (simp add: noOverlap_def)
next
  case (3 sp collapsed child rest anchorX cy dir)
  let ?h = "subtreeHeight sp collapsed child"
  let ?F = "sum_list (map (subtreeHeight sp collapsed) rest)"
  let ?c' = "layoutNode sp collapsed child anchorX (cy + ?h / 2) dir"
  let ?rest' = "layoutChildren sp collapsed rest anchorX (cy + ?h) dir"
  show ?case
  proof
    assume ok: "\<forall>t\<in>set (child # rest). sizesOk t"
    then have cok: "sizesOk child" and rok: "\<forall>t\<in>set rest. sizesOk t" by simp_all
    from subtreeHeight_nonneg [OF "3.prems"(2) cok] have h0: "0 \<le> ?h" .
    from sum_subtreeHeight_nonneg [OF "3.prems"(2) rok] have F0: "0 \<le> ?F" .
    from "3.IH"(1) [OF refl "3.prems"] cok
    have c1: "\<forall>b\<in>set (drawTree collapsed ?c').
        cy + ?h / 2 - ?h / 2 \<le> boxTop b \<and> boxBottom b \<le> cy + ?h / 2 + ?h / 2 \<and>
        besideX dir anchorX b"
      and c2: "noOverlap (drawTree collapsed ?c')"
      by blast+
    from "3.IH"(2) [OF refl "3.prems"] rok
    have r1: "\<forall>b\<in>set (concat (map (drawTree collapsed) ?rest')).
        cy + ?h \<le> boxTop b \<and> boxBottom b \<le> cy + ?h + ?F \<and> besideX dir anchorX b"
      and r2: "noOverlap (concat (map (drawTree collapsed) ?rest'))"
      by blast+
    have eq: "concat (map (drawTree collapsed) (layoutChildren sp collapsed (child # rest) anchorX cy dir))
       = drawTree collapsed ?c' @ concat (map (drawTree collapsed) ?rest')"
      by (simp add: Let_def)
    have cross: "\<not> overlaps a b"
      if "a \<in> set (drawTree collapsed ?c')" "b \<in> set (concat (map (drawTree collapsed) ?rest'))"
      for a b
    proof -
      from c1 that(1) have "boxBottom a \<le> cy + ?h" by auto
      moreover from r1 that(2) have "cy + ?h \<le> boxTop b" by blast
      ultimately show ?thesis by (intro sep_y) simp
    qed
    have all: "cy \<le> boxTop b \<and>
        boxBottom b \<le> cy + sum_list (map (subtreeHeight sp collapsed) (child # rest)) \<and>
        besideX dir anchorX b"
      if "b \<in> set (drawTree collapsed ?c') \<union> set (concat (map (drawTree collapsed) ?rest'))"
      for b
    proof (cases "b \<in> set (drawTree collapsed ?c')")
      case True
      with c1 have "cy \<le> boxTop b" "boxBottom b \<le> cy + ?h" "besideX dir anchorX b" by auto
      with F0 show ?thesis by simp
    next
      case False
      with that r1 have "cy + ?h \<le> boxTop b" "boxBottom b \<le> cy + ?h + ?F" "besideX dir anchorX b"
        by blast+
      with h0 show ?thesis by simp
    qed
    from all cross c2 r2
    show "(\<forall>b\<in>set (concat (map (drawTree collapsed)
                        (layoutChildren sp collapsed (child # rest) anchorX cy dir))).
               cy \<le> boxTop b \<and>
               boxBottom b \<le> cy + sum_list (map (subtreeHeight sp collapsed) (child # rest)) \<and>
               besideX dir anchorX b) \<and>
           noOverlap (concat (map (drawTree collapsed)
                        (layoutChildren sp collapsed (child # rest) anchorX cy dir)))"
      unfolding eq by (simp add: noOverlap_append)
  qed
qed

lemma direction_layoutNode [simp]:
  "direction (info (layoutNode sp collapsed t anchorX y dir)) = direction (info t)"
  by (simp add: info_layoutNode)

lemma layoutBranches_filter_same:
  "filter (\<lambda>c. direction (info c) = JStr dir) (layoutBranches sp collapsed cs e y dir) =
   layoutChildren sp collapsed (filter (\<lambda>c. direction (info c) = JStr dir) cs) e y dir"
  by (induction cs arbitrary: y) (simp_all add: Let_def)

lemma layoutBranches_filter_other:
  "d \<noteq> dir \<Longrightarrow>
   filter (\<lambda>c. direction (info c) = JStr d) (layoutBranches sp collapsed cs e y dir) =
   filter (\<lambda>c. direction (info c) = JStr d) cs"
  by (induction cs arbitrary: y) (simp_all add: Let_def)

lemma direction_layoutBranches:
  "map (\<lambda>c. direction (info c)) (layoutBranches sp collapsed cs e y dir) =
   map (\<lambda>c. direction (info c)) cs"
  by (induction cs arbitrary: y) (simp_all add: Let_def)

lemma layoutSide_filter_same:
  "filter (\<lambda>c. direction (info c) = JStr dir) (layoutSide opts sp collapsed ri cs dir) =
   layoutChildren sp collapsed (filter (\<lambda>c. direction (info c) = JStr dir) cs)
     (edgeOf opts sp ri dir)
     (- sum_list (map (subtreeHeight sp collapsed)
          (filter (\<lambda>c. direction (info c) = JStr dir) cs)) / 2) dir"
proof (cases "filter (\<lambda>c. direction (info c) = JStr dir) cs = []")
  case True
  then show ?thesis by (simp add: layoutSide_def)
next
  case False
  then show ?thesis
    by (simp add: layoutSide_def Let_def layoutBranches_filter_same edgeOf_def)
qed

lemma layoutSide_filter_other:
  "d \<noteq> dir \<Longrightarrow>
   filter (\<lambda>c. direction (info c) = JStr d) (layoutSide opts sp collapsed ri cs dir) =
   filter (\<lambda>c. direction (info c) = JStr d) cs"
  by (simp add: layoutSide_def Let_def layoutBranches_filter_other)

lemma direction_layoutSide:
  "map (\<lambda>c. direction (info c)) (layoutSide opts sp collapsed ri cs dir) =
   map (\<lambda>c. direction (info c)) cs"
  by (simp add: layoutSide_def Let_def direction_layoutBranches)

lemma noOverlap_partition:
  assumes "\<forall>c\<in>set fs. P c \<or> Q c"
    and "noOverlap (concat (map f (filter P fs)))"
    and "noOverlap (concat (map f (filter Q fs)))"
    and "\<forall>a\<in>set (concat (map f (filter P fs))). \<forall>b\<in>set (concat (map f (filter Q fs))).
           \<not> overlaps a b"
  shows "noOverlap (concat (map f fs))"
  using assms
proof (induction fs)
  case Nil
  show ?case by (simp add: noOverlap_def)
next
  case (Cons c fs)
  from Cons.prems have pq: "\<forall>d\<in>set fs. P d \<or> Q d" and c: "P c \<or> Q c" by simp_all
  from Cons.prems(2) have p: "noOverlap (concat (map f (filter P fs)))"
    by (simp add: noOverlap_append split: if_splits)
  from Cons.prems(3) have q: "noOverlap (concat (map f (filter Q fs)))"
    by (simp add: noOverlap_append split: if_splits)
  from Cons.prems(4) have x: "\<forall>a\<in>set (concat (map f (filter P fs))).
      \<forall>b\<in>set (concat (map f (filter Q fs))). \<not> overlaps a b"
    by (auto split: if_splits)
  from Cons.IH [OF pq p q x] have rest: "noOverlap (concat (map f fs))" .
  have own: "noOverlap (f c)"
    using c Cons.prems(2,3) by (auto simp: noOverlap_append)
  have cross: "\<not> overlaps a b" if a: "a \<in> set (f c)" and b: "b \<in> set (concat (map f fs))" for a b
  proof -
    from b obtain d where d: "d \<in> set fs" "b \<in> set (f d)" by auto
    with pq have dpq: "P d \<or> Q d" by blast
    show ?thesis
    proof (cases "P c")
      case True
      show ?thesis
      proof (cases "P d")
        case pd: True
        with d have "b \<in> set (concat (map f (filter P fs)))" by auto
        with Cons.prems(2) True a show ?thesis
          by (auto simp: noOverlap_append)
      next
        case False
        with dpq d have "b \<in> set (concat (map f (filter Q (c # fs))))" by auto
        moreover from True a have "a \<in> set (concat (map f (filter P (c # fs))))" by simp
        ultimately show ?thesis using Cons.prems(4) by blast
      qed
    next
      case False
      with c have qc: "Q c" by blast
      show ?thesis
      proof (cases "Q d")
        case True
        with d have "b \<in> set (concat (map f (filter Q fs)))" by auto
        with Cons.prems(3) qc a show ?thesis
          by (auto simp: noOverlap_append)
      next
        case nq: False
        with dpq d have "b \<in> set (concat (map f (filter P (c # fs))))" by auto
        moreover from qc a have "a \<in> set (concat (map f (filter Q (c # fs))))" by simp
        ultimately have "\<not> overlaps b a" using Cons.prems(4) by blast
        then show ?thesis by (simp add: overlaps_sym)
      qed
    qed
  qed
  from own rest cross show ?case
    by (simp add: noOverlap_append)
qed

lemma set_direction_transfer:
  assumes "map (\<lambda>c. direction (info c)) fs = map (\<lambda>c. direction (info c)) cs"
    and "\<forall>c\<in>set cs. p (direction (info c))"
  shows "\<forall>c\<in>set fs. p (direction (info c))"
proof -
  from assms(2) have "\<forall>d\<in>set (map (\<lambda>c. direction (info c)) cs). p d" by simp
  with assms(1) have "\<forall>d\<in>set (map (\<lambda>c. direction (info c)) fs). p d" by simp
  then show ?thesis by simp
qed

lemma layoutTree_horizontal_ok:
  assumes nv: "\<not> (layout opts = js ''down'' \<or> layout opts = js ''up'')"
    and sizes: "sizesOk rt"
    and gb: "0 \<le> sp_branchSpacingX sp" and gs: "0 \<le> sp_subSpacingX sp"
    and gv: "0 \<le> sp_verticalSpacing sp"
    and dirs: "\<forall>c\<in>set (children rt). direction (info c) = JStr (js ''left'') \<or>
                 direction (info c) = JStr (js ''right'')"
    and edge: "centerEdge opts = js ''side'' \<or> width (info rt) / 2 \<le> sp_branchSpacingX sp"
  shows "noOverlap (drawTree collapsed (layoutTree opts sp collapsed rt))"
proof -
  obtain i cs where rt: "rt = Node i cs" by (cases rt)
  define ri where "ri = i \<lparr> pos_x := 0, pos_y := 0 \<rparr>"
  define isR where "isR = (\<lambda>c. direction (info c) = JStr (js ''right''))"
  define isL where "isL = (\<lambda>c. direction (info c) = JStr (js ''left''))"
  define cs1 where "cs1 = layoutSide opts sp collapsed ri cs (js ''right'')"
  define fs where "fs = layoutSide opts sp collapsed ri cs1 (js ''left'')"
  define eR where "eR = edgeOf opts sp ri (js ''right'')"
  define eL where "eL = edgeOf opts sp ri (js ''left'')"
  have lt: "layoutTree opts sp collapsed rt = Node ri fs"
    using nv by (simp add: layoutTree_def rt ri_def fs_def cs1_def Let_def)
  from sizes have w: "0 \<le> width i" and cok: "\<forall>c\<in>set cs. sizesOk c"
    by (simp_all add: rt sizesOk_Node)
  from edge gb w have eR: "width i / 2 \<le> eR" and eL: "eL \<le> - (width i / 2)"
    by (auto simp: eR_def eL_def edgeOf_def ri_def rt)
  have R: "filter isR fs =
      layoutChildren sp collapsed (filter isR cs) eR
        (- sum_list (map (subtreeHeight sp collapsed) (filter isR cs)) / 2) (js ''right'')"
    unfolding isR_def fs_def cs1_def eR_def
    by (simp add: layoutSide_filter_other layoutSide_filter_same)
  have L: "filter isL fs =
      layoutChildren sp collapsed (filter isL cs) eL
        (- sum_list (map (subtreeHeight sp collapsed) (filter isL cs)) / 2) (js ''left'')"
    unfolding isL_def fs_def cs1_def eL_def
    by (simp add: layoutSide_filter_other layoutSide_filter_same)
  from layoutNode_ok_aux(2) [OF gs gv, of "filter isR cs" collapsed eR _ "js ''right''"] cok
  have Rb: "\<forall>b\<in>set (concat (map (drawTree collapsed) (filter isR fs))). eR \<le> boxLeft b"
    and Rn: "noOverlap (concat (map (drawTree collapsed) (filter isR fs)))"
    unfolding R by (auto simp: besideX_def)
  from layoutNode_ok_aux(2) [OF gs gv, of "filter isL cs" collapsed eL _ "js ''left''"] cok
  have Lb: "\<forall>b\<in>set (concat (map (drawTree collapsed) (filter isL fs))). boxRight b \<le> eL"
    and Ln: "noOverlap (concat (map (drawTree collapsed) (filter isL fs)))"
    unfolding L by (auto simp: besideX_def)
  have "map (\<lambda>c. direction (info c)) fs = map (\<lambda>c. direction (info c)) cs"
    by (simp add: fs_def cs1_def direction_layoutSide)
  from set_direction_transfer [OF this, of "\<lambda>d. d = JStr (js ''left'') \<or> d = JStr (js ''right'')"] dirs
  have pq: "\<forall>c\<in>set fs. isR c \<or> isL c"
    by (auto simp: rt isR_def isL_def)
  have cross: "\<forall>a\<in>set (concat (map (drawTree collapsed) (filter isR fs))).
      \<forall>b\<in>set (concat (map (drawTree collapsed) (filter isL fs))). \<not> overlaps a b"
  proof (intro ballI)
    fix a b
    assume "a \<in> set (concat (map (drawTree collapsed) (filter isR fs)))"
      and "b \<in> set (concat (map (drawTree collapsed) (filter isL fs)))"
    with Rb Lb have "eR \<le> boxLeft a" "boxRight b \<le> eL" by blast+
    with eR eL w have "boxRight b \<le> boxLeft a" by simp
    then show "\<not> overlaps a b" by (rule sep_x')
  qed
  from noOverlap_partition [OF pq Rn Ln cross]
  have kids: "noOverlap (concat (map (drawTree collapsed) fs))" .
  have rootsep: "\<not> overlaps ri b" if b: "b \<in> set (concat (map (drawTree collapsed) fs))" for b
  proof -
    from b obtain c where c: "c \<in> set fs" "b \<in> set (drawTree collapsed c)" by auto
    with pq have "isR c \<or> isL c" by blast
    then show ?thesis
    proof
      assume "isR c"
      with c have "b \<in> set (concat (map (drawTree collapsed) (filter isR fs)))" by auto
      with Rb have "eR \<le> boxLeft b" by blast
      with eR have "boxRight ri \<le> boxLeft b"
        by (simp add: boxRight_def ri_def)
      then show ?thesis by (rule sep_x)
    next
      assume "isL c"
      with c have "b \<in> set (concat (map (drawTree collapsed) (filter isL fs)))" by auto
      with Lb have "boxRight b \<le> eL" by blast
      with eL have "boxRight b \<le> boxLeft ri"
        by (simp add: boxLeft_def ri_def)
      then show ?thesis by (rule sep_x')
    qed
  qed
  from kids rootsep have "noOverlap (ri # concat (map (drawTree collapsed) fs))"
    by (simp add: noOverlap_Cons)
  moreover have "noOverlap [ri]" by (simp add: noOverlap_def)
  moreover have "drawTree collapsed (Node ri fs) =
      ri # (if fs = [] \<or> nid ri \<in> collapsed then []
            else concat (map (drawTree collapsed) fs))"
    by (simp only: drawTree_def [of _ "Node ri fs"] drawSubtree_eq node.sel)
  ultimately show ?thesis
    unfolding lt by simp
qed

lemma subtreeWidth_ge:
  "0 \<le> sp_horizontalSpacing sp \<Longrightarrow> width (info t) \<le> subtreeWidth sp collapsed t"
  by (cases t) (auto simp: Let_def)

lemma subtreeWidth_nonneg:
  "0 \<le> sp_horizontalSpacing sp \<Longrightarrow> sizesOk t \<Longrightarrow> 0 \<le> subtreeWidth sp collapsed t"
  using subtreeWidth_ge [of sp t collapsed] by (cases t) (simp add: sizesOk_Node)

lemma subtreeWidth_children:
  "\<not> (cs = [] \<or> nid i \<in> collapsed) \<Longrightarrow>
   sum_list (map (subtreeWidth sp collapsed) cs) \<le> subtreeWidth sp collapsed (Node i cs)"
  by (simp add: Let_def)

lemma sum_subtreeWidth_nonneg:
  "0 \<le> sp_horizontalSpacing sp \<Longrightarrow> \<forall>c\<in>set cs. sizesOk c \<Longrightarrow>
   0 \<le> sum_list (map (subtreeWidth sp collapsed) cs)"
  by (rule sum_list_nonneg) (auto simp: subtreeWidth_nonneg)

lemma subtreeWidth_moved:
  "subtreeWidth sp collapsed (Node (i \<lparr> pos_x := a, pos_y := b \<rparr>) cs) =
   subtreeWidth sp collapsed (Node i cs)"
  by (simp add: Let_def)

lemma sizesOk_moved:
  "sizesOk (Node (i \<lparr> pos_x := a, pos_y := b \<rparr>) cs) = sizesOk (Node i cs)"
  by (simp add: sizesOk_Node)

lemma info_layoutVerticalNode [simp]:
  "info (layoutVerticalNode sp collapsed t sign) = info t"
  by (cases t) (simp add: Let_def)

lemma drawSubtree_layoutVerticalNode:
  "drawSubtree collapsed (layoutVerticalNode sp collapsed (Node i cs) sign) =
     (if cs = [] \<or> nid i \<in> collapsed then []
      else concat (map (drawTree collapsed)
             (layoutVerticalChildren sp collapsed cs
                (pos_x i - sum_list (map (subtreeWidth sp collapsed) cs) / 2)
                (pos_y i + sign * (height i / 2 + sp_verticalSpacingY sp)) sign)))"
  by (simp add: Let_def drawTree_def [abs_def])

lemma belowY_sep:
  assumes "sign = 1 \<or> sign = - 1"
    and "belowY sign (pos_y a + sign * (height a / 2)) b"
  shows "\<not> overlaps a b"
  using assms(1)
proof
  assume "sign = 1"
  with assms(2) have "boxBottom a \<le> boxTop b"
    by (simp add: belowY_def boxBottom_def boxTop_def)
  then show ?thesis by (rule sep_y)
next
  assume "sign = - 1"
  with assms(2) have "boxBottom b \<le> boxTop a"
    by (simp add: belowY_def boxBottom_def boxTop_def)
  then show ?thesis by (rule sep_y')
qed

lemma belowY_mono:
  assumes "sign = 1 \<or> sign = - 1" and "0 \<le> d" and "belowY sign (e + sign * d) b"
  shows "belowY sign e b"
  using assms by (auto simp: belowY_def algebra_simps)

lemma layoutVertical_ok_aux:
  assumes gy: "0 \<le> sp_verticalSpacingY sp" and gh: "0 \<le> sp_horizontalSpacing sp"
    and sg: "sign = 1 \<or> sign = - 1"
  shows "sizesOk t \<longrightarrow>
           (\<forall>b\<in>set (drawSubtree collapsed (layoutVerticalNode sp collapsed t sign)).
               pos_x (info t) - subtreeWidth sp collapsed t / 2 \<le> boxLeft b \<and>
               boxRight b \<le> pos_x (info t) + subtreeWidth sp collapsed t / 2 \<and>
               belowY sign (pos_y (info t) + sign * (height (info t) / 2)) b) \<and>
           noOverlap (drawTree collapsed (layoutVerticalNode sp collapsed t sign))"
    and "(\<forall>t\<in>set ts. sizesOk t) \<longrightarrow>
           (\<forall>b\<in>set (concat (map (drawTree collapsed)
                        (layoutVerticalChildren sp collapsed ts xl edgeY sign))).
               xl \<le> boxLeft b \<and>
               boxRight b \<le> xl + sum_list (map (subtreeWidth sp collapsed) ts) \<and>
               belowY sign edgeY b) \<and>
           noOverlap (concat (map (drawTree collapsed)
                        (layoutVerticalChildren sp collapsed ts xl edgeY sign)))"
  using assms
proof (induction sp collapsed t sign and sp collapsed ts xl edgeY sign
       rule: layoutVerticalNode_layoutVerticalChildren.induct)
  case (1 sp collapsed i cs sign)
  let ?T = "sum_list (map (subtreeWidth sp collapsed) cs)"
  let ?f = "subtreeWidth sp collapsed (Node i cs)"
  let ?e = "pos_y i + sign * (height i / 2 + sp_verticalSpacingY sp)"
  let ?cs' = "layoutVerticalChildren sp collapsed cs (pos_x i - ?T / 2) ?e sign"
  let ?t' = "layoutVerticalNode sp collapsed (Node i cs) sign"
  show ?case
  proof
    assume ok: "sizesOk (Node i cs)"
    then have cok: "\<forall>c\<in>set cs. sizesOk c" by (simp add: sizesOk_Node)
    have dt: "drawTree collapsed ?t' = i # drawSubtree collapsed ?t'"
      by (simp only: drawTree_def info_layoutVerticalNode node.sel)
    show "(\<forall>b\<in>set (drawSubtree collapsed ?t').
               pos_x (info (Node i cs)) - ?f / 2 \<le> boxLeft b \<and>
               boxRight b \<le> pos_x (info (Node i cs)) + ?f / 2 \<and>
               belowY sign (pos_y (info (Node i cs)) + sign * (height (info (Node i cs)) / 2)) b) \<and>
           noOverlap (drawTree collapsed ?t')"
    proof (cases "cs = [] \<or> nid i \<in> collapsed")
      case True
      then have "drawSubtree collapsed ?t' = []"
        by (simp only: drawSubtree_layoutVerticalNode if_True)
      then show ?thesis
        unfolding dt by (simp add: noOverlap_def)
    next
      case False
      then have ds: "drawSubtree collapsed ?t' = concat (map (drawTree collapsed) ?cs')"
        by (simp only: drawSubtree_layoutVerticalNode if_False)
      from "1.IH" [OF False refl refl "1.prems"] cok
      have kids: "\<forall>b\<in>set (concat (map (drawTree collapsed) ?cs')).
               pos_x i - ?T / 2 \<le> boxLeft b \<and> boxRight b \<le> pos_x i - ?T / 2 + ?T \<and>
               belowY sign ?e b"
        and kno: "noOverlap (concat (map (drawTree collapsed) ?cs'))"
        by blast+
      from subtreeWidth_children [OF False, of sp] have Tf: "?T \<le> ?f" .
      have kid: "pos_x i - ?f / 2 \<le> boxLeft b \<and> boxRight b \<le> pos_x i + ?f / 2 \<and>
                 belowY sign (pos_y i + sign * (height i / 2)) b \<and> \<not> overlaps i b"
        if b: "b \<in> set (concat (map (drawTree collapsed) ?cs'))" for b
      proof -
        from kids b have b1: "pos_x i - ?T / 2 \<le> boxLeft b"
          and b2: "boxRight b \<le> pos_x i - ?T / 2 + ?T"
          and b3: "belowY sign ?e b" by blast+
        from b1 b2 Tf have band: "pos_x i - ?f / 2 \<le> boxLeft b" "boxRight b \<le> pos_x i + ?f / 2"
          by simp_all
        have "?e = pos_y i + sign * (height i / 2) + sign * sp_verticalSpacingY sp"
          by (simp add: algebra_simps)
        with b3 have "belowY sign (pos_y i + sign * (height i / 2) + sign * sp_verticalSpacingY sp) b"
          by simp
        from belowY_mono [OF "1.prems"(3) "1.prems"(1) this]
        have bl: "belowY sign (pos_y i + sign * (height i / 2)) b" .
        from belowY_sep [OF "1.prems"(3) bl] band bl show ?thesis by simp
      qed
      from kid kno show ?thesis
        unfolding dt ds by (simp add: noOverlap_Cons)
    qed
  qed
next
  case (2 sp collapsed xl edgeY sign)
  show ?case by (simp add: noOverlap_def)
next
  case (3 sp collapsed ci ccs rest xl edgeY sign)
  let ?w = "subtreeWidth sp collapsed (Node ci ccs)"
  let ?ci' = "ci \<lparr> pos_x := xl + ?w / 2, pos_y := edgeY + sign * height ci / 2 \<rparr>"
  let ?F = "sum_list (map (subtreeWidth sp collapsed) rest)"
  let ?c' = "layoutVerticalNode sp collapsed (Node ?ci' ccs) sign"
  let ?rest' = "layoutVerticalChildren sp collapsed rest (xl + ?w) edgeY sign"
  show ?case
  proof
    assume ok: "\<forall>t\<in>set (Node ci ccs # rest). sizesOk t"
    then have cok: "sizesOk (Node ci ccs)" and rok: "\<forall>t\<in>set rest. sizesOk t" by simp_all
    from cok have hc: "0 \<le> height ci" and wc: "0 \<le> width ci" by (simp_all add: sizesOk_Node)
    from cok have cok': "sizesOk (Node ?ci' ccs)" by (simp only: sizesOk_moved)
    have w': "subtreeWidth sp collapsed (Node ?ci' ccs) = ?w" by (rule subtreeWidth_moved)
    from subtreeWidth_ge [OF "3.prems"(2), of "Node ci ccs" collapsed] have wge: "width ci \<le> ?w"
      by simp
    from subtreeWidth_nonneg [OF "3.prems"(2) cok] have w0: "0 \<le> ?w" .
    from sum_subtreeWidth_nonneg [OF "3.prems"(2) rok] have F0: "0 \<le> ?F" .
    have ss: "sign * sign = 1" using "3.prems"(3) by auto
    from "3.IH"(1) [OF refl refl "3.prems"] cok'
    have c1: "\<forall>b\<in>set (drawSubtree collapsed ?c').
        pos_x ?ci' - ?w / 2 \<le> boxLeft b \<and> boxRight b \<le> pos_x ?ci' + ?w / 2 \<and>
        belowY sign (pos_y ?ci' + sign * (height ?ci' / 2)) b"
      and c2: "noOverlap (drawTree collapsed ?c')"
      unfolding w' by (simp_all only: node.sel) blast+
    from "3.IH"(2) [OF refl refl "3.prems"] rok
    have r1: "\<forall>b\<in>set (concat (map (drawTree collapsed) ?rest')).
        xl + ?w \<le> boxLeft b \<and> boxRight b \<le> xl + ?w + ?F \<and> belowY sign edgeY b"
      and r2: "noOverlap (concat (map (drawTree collapsed) ?rest'))"
      by blast+
    have dt: "drawTree collapsed ?c' = ?ci' # drawSubtree collapsed ?c'"
      by (simp only: drawTree_def info_layoutVerticalNode node.sel)
    have own12: "xl \<le> boxLeft ?ci'" "boxRight ?ci' \<le> xl + ?w"
      using wge by (simp_all add: boxLeft_def boxRight_def)
    have own3: "belowY sign edgeY ?ci'"
      using "3.prems"(3) by (auto simp: belowY_def)
    note own = own12 own3
    have desc: "xl \<le> boxLeft b \<and> boxRight b \<le> xl + ?w \<and> belowY sign edgeY b"
      if b: "b \<in> set (drawSubtree collapsed ?c')" for b
    proof -
      from c1 b have b1: "pos_x ?ci' - ?w / 2 \<le> boxLeft b" and b2: "boxRight b \<le> pos_x ?ci' + ?w / 2"
        and b3: "belowY sign (pos_y ?ci' + sign * (height ?ci' / 2)) b" by blast+
      have "pos_y ?ci' + sign * (height ?ci' / 2) = edgeY + sign * height ci"
        by simp
      with b3 have "belowY sign (edgeY + sign * height ci) b" by (simp only:)
      from belowY_mono [OF "3.prems"(3) hc this] b1 b2 show ?thesis by simp
    qed
    have eq: "concat (map (drawTree collapsed)
                (layoutVerticalChildren sp collapsed (Node ci ccs # rest) xl edgeY sign))
       = drawTree collapsed ?c' @ concat (map (drawTree collapsed) ?rest')"
      by (simp add: Let_def)
    have left: "xl \<le> boxLeft b \<and> boxRight b \<le> xl + ?w \<and> belowY sign edgeY b"
      if "b \<in> set (drawTree collapsed ?c')" for b
      using that own desc unfolding dt by auto
    have cross: "\<not> overlaps a b"
      if "a \<in> set (drawTree collapsed ?c')" "b \<in> set (concat (map (drawTree collapsed) ?rest'))"
      for a b
    proof -
      from left that(1) have "boxRight a \<le> xl + ?w" by blast
      moreover from r1 that(2) have "xl + ?w \<le> boxLeft b" by blast
      ultimately show ?thesis by (intro sep_x) simp
    qed
    have all: "xl \<le> boxLeft b \<and>
        boxRight b \<le> xl + sum_list (map (subtreeWidth sp collapsed) (Node ci ccs # rest)) \<and>
        belowY sign edgeY b"
      if "b \<in> set (drawTree collapsed ?c') \<union> set (concat (map (drawTree collapsed) ?rest'))"
      for b
    proof (cases "b \<in> set (drawTree collapsed ?c')")
      case True
      with left have "xl \<le> boxLeft b" "boxRight b \<le> xl + ?w" "belowY sign edgeY b" by blast+
      with F0 show ?thesis by simp
    next
      case False
      with that r1 have "xl + ?w \<le> boxLeft b" "boxRight b \<le> xl + ?w + ?F" "belowY sign edgeY b"
        by blast+
      with w0 show ?thesis by simp
    qed
    from all cross c2 r2
    show "(\<forall>b\<in>set (concat (map (drawTree collapsed)
                        (layoutVerticalChildren sp collapsed (Node ci ccs # rest) xl edgeY sign))).
               xl \<le> boxLeft b \<and>
               boxRight b \<le> xl + sum_list (map (subtreeWidth sp collapsed) (Node ci ccs # rest)) \<and>
               belowY sign edgeY b) \<and>
           noOverlap (concat (map (drawTree collapsed)
                        (layoutVerticalChildren sp collapsed (Node ci ccs # rest) xl edgeY sign)))"
      unfolding eq by (simp add: noOverlap_append)
  qed
qed

lemma round_nonneg: "0 \<le> (x::real) \<Longrightarrow> 0 \<le> round x"
  using round_mono [of 0 x] by simp

lemma computeAdaptiveSpacing_nonneg:
  assumes "validConfig opts"
  shows "0 \<le> sp_branchSpacingX (computeAdaptiveSpacing opts rt)"
    and "0 \<le> sp_subSpacingX (computeAdaptiveSpacing opts rt)"
    and "0 \<le> sp_verticalSpacingY (computeAdaptiveSpacing opts rt)"
    and "0 \<le> sp_horizontalSpacing (computeAdaptiveSpacing opts rt)"
    and "0 \<le> sp_verticalSpacing (computeAdaptiveSpacing opts rt)"
proof -
  define sm where "sm = spacingMultiplier opts"
  define df :: real where
    "df = (if maxDepth rt \<le> 2 then 1
           else max (double 0.45) (fdiv (double 2.5) (real (maxDepth rt))))"
  from assms have sm: "0 \<le> sm" by (simp add: validConfig_def sm_def)
  have "0 \<le> double 0.45" by (simp add: double_nonneg)
  then have df: "0 \<le> df" by (simp add: df_def max_def)
  from sm df have f: "0 \<le> fmul sm df" by (rule fmul_nonneg)
  have r: "0 \<le> round (fmul (double b) c)" if "0 < b" "0 \<le> c" for b c :: real
    using that by (intro round_nonneg fmul_nonneg double_nonneg) simp_all
  from assms sm f
  show "0 \<le> sp_branchSpacingX (computeAdaptiveSpacing opts rt)"
    and "0 \<le> sp_subSpacingX (computeAdaptiveSpacing opts rt)"
    and "0 \<le> sp_verticalSpacingY (computeAdaptiveSpacing opts rt)"
    and "0 \<le> sp_horizontalSpacing (computeAdaptiveSpacing opts rt)"
    and "0 \<le> sp_verticalSpacing (computeAdaptiveSpacing opts rt)"
    unfolding computeAdaptiveSpacing_def Let_def sm_def [symmetric] df_def [symmetric]
      validConfig_def
    by (auto intro!: r)
qed

lemma layoutTree_noOverlap:
  assumes cfg: "validConfig opts"
    and sizes: "\<forall>n\<in>set (preorder rt). 0 \<le> width n \<and> 0 \<le> height n"
    and horiz: "\<not> verticalLayout opts \<longrightarrow>
       (\<forall>c\<in>set (children rt). pinned c) \<and>
       (centerEdge opts = js ''side'' \<or>
        width (info rt) / 2 \<le> sp_branchSpacingX (computeAdaptiveSpacing opts rt))"
  shows "let ns = drawTree collapsed
                    (layoutTree opts (computeAdaptiveSpacing opts rt) collapsed rt)
         in noOverlap ns \<and>
            (\<forall>k l. k < l \<and> l < length ns \<longrightarrow> interior (ns ! k) \<inter> interior (ns ! l) = {})"
proof -
  define sp where "sp = computeAdaptiveSpacing opts rt"
  note g = computeAdaptiveSpacing_nonneg [OF cfg, of rt, folded sp_def]
  from sizes have ok: "sizesOk rt" by (simp add: sizesOk_def)
  have "noOverlap (drawTree collapsed (layoutTree opts sp collapsed rt))"
  proof (cases "verticalLayout opts")
    case True
    obtain i cs where rt: "rt = Node i cs" by (cases rt)
    let ?ri = "i \<lparr> pos_x := 0, pos_y := 0 \<rparr>"
    let ?sign = "if layout opts = js ''down'' then 1 else - 1 :: real"
    from True have lt: "layoutTree opts sp collapsed rt =
        layoutVerticalNode sp collapsed (Node ?ri cs) ?sign"
      by (simp add: layoutTree_def verticalLayout_def rt Let_def)
    from ok have "sizesOk (Node ?ri cs)"
      by (simp only: rt sizesOk_moved)
    with layoutVertical_ok_aux(1) [OF g(3) g(4), of ?sign "Node ?ri cs" collapsed]
    show ?thesis unfolding lt by auto
  next
    case False
    with horiz have d: "\<forall>c\<in>set (children rt). direction (info c) = JStr (js ''left'') \<or>
                 direction (info c) = JStr (js ''right'')"
      and e: "centerEdge opts = js ''side'' \<or> width (info rt) / 2 \<le> sp_branchSpacingX sp"
      by (simp_all add: pinned_def sp_def)
    from False have nv: "\<not> (layout opts = js ''down'' \<or> layout opts = js ''up'')"
      by (simp add: verticalLayout_def)
    from layoutTree_horizontal_ok [OF nv ok g(1) g(2) g(5) d e] show ?thesis .
  qed
  then show ?thesis
    unfolding Let_def sp_def [symmetric] by (simp add: noOverlap_interiors)
qed

subsection \<open>What direction assignment, sizing and positioning keep\<close>

lemma topic_propagateDir: "map topic (preorder (propagateDir t d)) = map topic (preorder t)"
  by (induction t d rule: propagateDir.induct) (simp add: map_concat comp_def cong: map_cong)

lemma topic_setDirection: "map topic (preorder (setDirection c d)) = map topic (preorder c)"
  by (cases c) (simp add: setDirection_def)

lemma topic_assignFloats:
  "map (\<lambda>c. map topic (preorder c)) (assignFloats cs rc lc) = map (\<lambda>c. map topic (preorder c)) cs"
  by (induction cs rc lc rule: assignFloats.induct) (simp_all add: topic_setDirection)

lemma topic_assignDirections:
  "map topic (preorder (assignDirections opts t)) = map topic (preorder t)"
proof -
  obtain i cs where t: "t = Node i cs" by (cases t)
  have a: "concat (map (\<lambda>c. map topic (preorder (propagateDir c (f c)))) xs) =
           concat (map (\<lambda>c. map topic (preorder c)) xs)"
    for f and xs :: "node list"
    by (simp add: topic_propagateDir)
  have b: "map topic (preorder (Node i (map (\<lambda>c. propagateDir c (f c)) xs))) =
           topic i # concat (map (\<lambda>c. map topic (preorder c)) xs)"
    for f and xs :: "node list"
    by (simp add: map_concat comp_def topic_propagateDir)
  have c: "concat (map (\<lambda>c. map topic (preorder c)) (assignFloats cs rc lc)) =
           concat (map (\<lambda>c. map topic (preorder c)) cs)" for rc lc
    by (simp add: topic_assignFloats)
  have d: "map topic (preorder t) = topic i # concat (map (\<lambda>c. map topic (preorder c)) cs)"
    by (simp add: t map_concat comp_def)
  show ?thesis
    unfolding d by (simp only: assignDirections_def t Let_def b c node.sel split: if_splits) simp
qed

lemma topicIsString_assignDirections:
  assumes "\<forall>n\<in>set (preorder t). topicIsString n"
  shows "\<forall>n\<in>set (preorder (assignDirections opts t)). topicIsString n"
proof -
  define P where "P = (\<lambda>v. case v of JStr x \<Rightarrow> True | _ \<Rightarrow> False)"
  have eq: "(\<forall>n\<in>set (preorder u). topicIsString n) = list_all P (map topic (preorder u))" for u
    by (simp add: list_all_iff topicIsString_def P_def)
  from assms show ?thesis
    unfolding eq topic_assignDirections .
qed

lemma assignFloats_sides:
  "\<forall>c\<in>set cs. pinned c \<or> unpinned c \<Longrightarrow> \<forall>c\<in>set (assignFloats cs rc lc). pinned c"
proof (induction cs rc lc rule: assignFloats.induct)
  case (1 rightCount leftCount)
  show ?case by simp
next
  case (2 c cs rightCount leftCount)
  have s: "pinned (setDirection c (JStr (js ''right'')))" "pinned (setDirection c (JStr (js ''left'')))"
    by (simp_all add: pinned_def setDirection_def)
  from "2.prems" have c: "pinned c \<or> unpinned c" and r: "\<forall>c\<in>set cs. pinned c \<or> unpinned c"
    by simp_all
  show ?case
  proof (cases "truthy (direction (info c))")
    case True
    with c have "pinned c" by (simp add: unpinned_def)
    with "2.IH"(1) [OF True r] True show ?thesis by simp
  next
    case f: False
    show ?thesis
    proof (cases "rightCount \<le> leftCount")
      case True
      with "2.IH"(2) [OF f True r] f s show ?thesis by simp
    next
      case False
      with "2.IH"(3) [OF f False r] f s show ?thesis by simp
    qed
  qed
qed

lemma assignDirections_sides:
  assumes "\<not> verticalLayout opts" and "\<forall>c\<in>set (children t). pinned c \<or> unpinned c"
  shows "\<forall>c\<in>set (children (assignDirections opts t)). pinned c"
proof (cases "layout opts = js ''left'' \<or> layout opts = js ''right''")
  case True
  with assms(1) show ?thesis
    by (auto simp: assignDirections_def verticalLayout_def pinned_def)
next
  case False
  with assms(1) have "autoLayout opts"
    by (simp add: autoLayout_def verticalLayout_def)
  from assignDirections_auto_children [OF this, of "info t" "children t"]
    assignFloats_sides [OF assms(2)]
  show ?thesis
    by (auto simp: pinned_def)
qed

lemma foldl_max_ge: "a \<le> foldl (\<lambda>m l. max m (f l)) a xs" for a :: real
proof (induction xs arbitrary: a)
  case Nil
  show ?case by simp
next
  case (Cons x xs)
  have "a \<le> max a (f x)" by simp
  also have "\<dots> \<le> foldl (\<lambda>m l. max m (f l)) (max a (f x)) xs" by (rule Cons.IH)
  finally show ?case by simp
qed

lemma computeSizes_NodeE:
  assumes "computeSizes opts m (Node i cs) = Inr t'"
  obtains i' cs' lns where "computeSizesEach opts m cs = Inr cs'"
    and "t' = Node i' cs'"
    and "width i' = of_int \<lceil>min
            (foldl (\<lambda>mx l. max mx (measureText m l
               (fontSize (if depth i = 0 then center opts
                          else if depth i = 1 then branch opts else leaf opts)))) 0 lns
             + paddingX (if depth i = 0 then center opts
                         else if depth i = 1 then branch opts else leaf opts) * 2
             + (if truthy (url i) then LINK_ICON_SPACE else 0))
            (maxWidth (if depth i = 0 then center opts
                       else if depth i = 1 then branch opts else leaf opts))\<rceil>"
    and "height i' = of_int \<lceil>real (length lns) *
            (fontSize (if depth i = 0 then center opts
                       else if depth i = 1 then branch opts else leaf opts) * lineHeight opts)
            + paddingY (if depth i = 0 then center opts
                        else if depth i = 1 then branch opts else leaf opts) * 2\<rceil>"
proof -
  from assms obtain t where t: "topic i = JStr t"
    by (cases "topic i") (simp_all add: Let_def)
  from assms t obtain cs' where cs': "computeSizesEach opts m cs = Inr cs'"
    by (cases "computeSizesEach opts m cs") (simp_all add: Let_def)
  let ?st = "if depth i = 0 then center opts else if depth i = 1 then branch opts else leaf opts"
  from assms t cs'
  have "children t' = cs' \<and>
        width (info t') = of_int \<lceil>min
            (foldl (\<lambda>mx l. max mx (measureText m l (fontSize ?st))) 0 (lines (info t'))
             + paddingX ?st * 2 + (if truthy (url i) then LINK_ICON_SPACE else 0))
            (maxWidth ?st)\<rceil> \<and>
        height (info t') = of_int \<lceil>real (length (lines (info t'))) *
            (fontSize ?st * lineHeight opts) + paddingY ?st * 2\<rceil>"
    unfolding computeSizes.simps Let_def by (simp only: json.case sum.case, elim sum.inject [THEN iffD1, elim_format]) auto
  moreover have "t' = Node (info t') (children t')" by simp
  ultimately show ?thesis
    using that [OF cs', of "info t'" "lines (info t')"] by metis
qed

lemma validStyle_pick:
  "validStyles opts \<Longrightarrow>
   validStyle (if d = (0::nat) then center opts else if d = 1 then branch opts else leaf opts)"
  by (simp add: validStyles_def)

lemma computeSizes_sizesOk_aux:
  assumes "validStyles opts"
  shows "computeSizes opts m t = Inr t' \<longrightarrow> sizesOk t'"
    and "computeSizesEach opts m ts = Inr ts' \<longrightarrow> (\<forall>c\<in>set ts'. sizesOk c)"
  using assms
proof (induction opts m t and opts m ts arbitrary: t' and ts'
       rule: computeSizes_computeSizesEach.induct)
  case (1 opts measurer i cs)
  let ?st = "if depth i = 0 then center opts else if depth i = 1 then branch opts else leaf opts"
  show ?case
  proof
    assume a: "computeSizes opts measurer (Node i cs) = Inr t'"
    then obtain t where t: "topic i = JStr t"
      by (cases "topic i") (simp_all add: Let_def)
    from a obtain i' cs' lns where cs': "computeSizesEach opts measurer cs = Inr cs'"
      and t': "t' = Node i' cs'"
      and w: "width i' = of_int \<lceil>min
            (foldl (\<lambda>mx l. max mx (measureText measurer l (fontSize ?st))) 0 lns
             + paddingX ?st * 2 + (if truthy (url i) then LINK_ICON_SPACE else 0))
            (maxWidth ?st)\<rceil>"
      and h: "height i' = of_int \<lceil>real (length lns) * (fontSize ?st * lineHeight opts)
            + paddingY ?st * 2\<rceil>"
      by (rule computeSizes_NodeE)
    from "1.IH" [OF refl refl refl refl refl refl refl refl t refl refl refl refl "1.prems"] cs'
    have kids: "\<forall>c\<in>set cs'. sizesOk c" by blast
    from validStyle_pick [OF "1.prems", of "depth i"]
    have st: "0 \<le> fontSize ?st" "0 \<le> paddingX ?st" "0 \<le> paddingY ?st" "0 \<le> maxWidth ?st"
      by (simp_all add: validStyle_def)
    from "1.prems" have lh: "0 \<le> lineHeight opts" by (simp add: validStyles_def)
    have "0 \<le> foldl (\<lambda>mx l. max mx (measureText measurer l (fontSize ?st))) 0 lns"
      by (rule foldl_max_ge)
    with st have "0 \<le> min
            (foldl (\<lambda>mx l. max mx (measureText measurer l (fontSize ?st))) 0 lns
             + paddingX ?st * 2 + (if truthy (url i) then LINK_ICON_SPACE else 0))
            (maxWidth ?st)"
      by (simp add: LINK_ICON_SPACE_def)
    then have w0: "0 \<le> width i'"
      unfolding w by (simp add: ceiling_mono [of 0, simplified])
    from st lh have "0 \<le> real (length lns) * (fontSize ?st * lineHeight opts) + paddingY ?st * 2"
      by simp
    then have h0: "0 \<le> height i'"
      unfolding h by (simp add: ceiling_mono [of 0, simplified])
    from w0 h0 kids show "sizesOk t'"
      by (simp add: t' sizesOk_Node)
  qed
next
  case (2 opts measurer)
  show ?case by simp
next
  case (3 opts measurer c cs)
  show ?case
  proof
    assume a: "computeSizesEach opts measurer (c # cs) = Inr ts'"
    then obtain c' cs' where c': "computeSizes opts measurer c = Inr c'"
      and cs': "computeSizesEach opts measurer cs = Inr cs'" and ts': "ts' = c' # cs'"
      by (auto split: sum.splits)
    from "3.IH"(1) [OF "3.prems"] c' have "sizesOk c'" by blast
    moreover from "3.IH"(2) [OF c' "3.prems"] cs' have "\<forall>c\<in>set cs'. sizesOk c" by blast
    ultimately show "\<forall>c\<in>set ts'. sizesOk c" by (simp add: ts')
  qed
qed

lemma direction_computeSizes_aux:
  "computeSizes opts m t = Inr t' \<longrightarrow> direction (info t') = direction (info t)"
  "computeSizesEach opts m ts = Inr ts' \<longrightarrow>
     map (\<lambda>c. direction (info c)) ts' = map (\<lambda>c. direction (info c)) ts"
proof (induction opts m t and opts m ts arbitrary: t' and ts'
       rule: computeSizes_computeSizesEach.induct)
  case (1 opts measurer i cs)
  show ?case
  proof
    assume a: "computeSizes opts measurer (Node i cs) = Inr t'"
    then obtain t where t: "topic i = JStr t"
      by (cases "topic i") (simp_all add: Let_def)
    from a t obtain cs' where cs': "computeSizesEach opts measurer cs = Inr cs'"
      by (cases "computeSizesEach opts measurer cs") (simp_all add: Let_def)
    from a t cs' show "direction (info t') = direction (info (Node i cs))"
      unfolding computeSizes.simps Let_def by (simp only: json.case sum.case) auto
  qed
next
  case (2 opts measurer)
  show ?case by simp
next
  case (3 opts measurer c cs)
  show ?case
  proof
    assume a: "computeSizesEach opts measurer (c # cs) = Inr ts'"
    then obtain c' cs' where c': "computeSizes opts measurer c = Inr c'"
      and cs': "computeSizesEach opts measurer cs = Inr cs'" and ts': "ts' = c' # cs'"
      by (auto split: sum.splits)
    from "3.IH"(1) c' have "direction (info c') = direction (info c)" by blast
    moreover from "3.IH"(2) [OF c'] cs'
    have "map (\<lambda>c. direction (info c)) cs' = map (\<lambda>c. direction (info c)) cs" by blast
    ultimately show "map (\<lambda>c. direction (info c)) ts' = map (\<lambda>c. direction (info c)) (c # cs)"
      by (simp add: ts')
  qed
qed

lemma children_computeSizes:
  assumes "computeSizes opts m t = Inr t'"
  shows "map (\<lambda>c. direction (info c)) (children t') = map (\<lambda>c. direction (info c)) (children t)"
proof -
  obtain i cs where t: "t = Node i cs" by (cases t)
  from assms [unfolded t] obtain i' cs' lns where "computeSizesEach opts m cs = Inr cs'"
    and "t' = Node i' cs'"
    by (rule computeSizes_NodeE)
  with direction_computeSizes_aux(2) [of opts m cs cs'] t show ?thesis by simp
qed

lemma maxDepth_cong:
  "depth i' = depth i \<Longrightarrow> map maxDepth cs' = map maxDepth cs \<Longrightarrow>
   maxDepth (Node i' cs') = maxDepth (Node i cs)"
proof -
  assume d: "depth i' = depth i" and m: "map maxDepth cs' = map maxDepth cs"
  from m have "length cs' = length cs" by (rule map_eq_imp_length_eq)
  then have "cs' = [] \<longleftrightarrow> cs = []" by auto
  with d m show ?thesis by simp
qed

lemma maxDepth_layoutNode_aux:
  "maxDepth (layoutNode sp collapsed t anchorX y dir) = maxDepth t"
  "map maxDepth (layoutChildren sp collapsed ts anchorX cy dir) = map maxDepth ts"
proof (induction sp collapsed t anchorX y dir and sp collapsed ts anchorX cy dir
       rule: layoutNode_layoutChildren.induct)
  case (1 sp collapsed i cs anchorX y dir)
  show ?case
  proof (cases "cs = [] \<or> nid i \<in> collapsed")
    case True
    then show ?thesis
      by (simp only: layoutNode.simps Let_def if_True) (rule maxDepth_cong, simp_all)
  next
    case False
    from "1.IH" [OF refl refl False refl refl] False show ?thesis
      by (simp only: layoutNode.simps Let_def if_False) (rule maxDepth_cong, simp_all)
  qed
next
  case (2 sp collapsed anchorX cy dir)
  show ?case by simp
next
  case (3 sp collapsed child rest anchorX cy dir)
  from "3.IH"(1) [OF refl] "3.IH"(2) [OF refl] show ?case
    by (simp add: Let_def)
qed

lemma maxDepth_layoutBranches:
  "map maxDepth (layoutBranches sp collapsed cs e y dir) = map maxDepth cs"
  by (induction cs arbitrary: y) (simp_all add: Let_def maxDepth_layoutNode_aux(1))

lemma maxDepth_layoutSide:
  "map maxDepth (layoutSide opts sp collapsed ri cs dir) = map maxDepth cs"
  by (simp add: layoutSide_def Let_def maxDepth_layoutBranches)

lemma maxDepth_layoutVertical_aux:
  "maxDepth (layoutVerticalNode sp collapsed t sign) = maxDepth t"
  "map maxDepth (layoutVerticalChildren sp collapsed ts xl edgeY sign) = map maxDepth ts"
proof (induction sp collapsed t sign and sp collapsed ts xl edgeY sign
       rule: layoutVerticalNode_layoutVerticalChildren.induct)
  case (1 sp collapsed i cs sign)
  show ?case
  proof (cases "cs = [] \<or> nid i \<in> collapsed")
    case True
    then show ?thesis
      by (simp only: layoutVerticalNode.simps if_True)
  next
    case False
    from "1.IH" [OF False refl refl] False show ?thesis
      by (simp only: layoutVerticalNode.simps Let_def if_False) (rule maxDepth_cong, simp_all)
  qed
next
  case (2 sp collapsed xl edgeY sign)
  show ?case by simp
next
  case (3 sp collapsed ci ccs rest xl edgeY sign)
  have "maxDepth (Node (ci \<lparr> pos_x := a, pos_y := b \<rparr>) ccs) = maxDepth (Node ci ccs)" for a b
    by (rule maxDepth_cong) simp_all
  with "3.IH"(1) [OF refl refl] "3.IH"(2) [OF refl refl] show ?case
    by (simp only: layoutVerticalChildren.simps Let_def list.map)
qed

lemma maxDepth_layoutTree: "maxDepth (layoutTree opts sp collapsed rt) = maxDepth rt"
proof -
  obtain i cs where rt: "rt = Node i cs" by (cases rt)
  have m: "maxDepth (Node (i \<lparr> pos_x := 0, pos_y := 0 \<rparr>) cs) = maxDepth (Node i cs)"
    by (rule maxDepth_cong) simp_all
  show ?thesis
  proof (cases "layout opts = js ''down'' \<or> layout opts = js ''up''")
    case True
    then have "layoutTree opts sp collapsed rt =
       layoutVerticalNode sp collapsed (Node (i \<lparr> pos_x := 0, pos_y := 0 \<rparr>) cs)
         (if layout opts = js ''down'' then 1 else - 1)"
      by (simp add: layoutTree_def rt Let_def)
    then show ?thesis
      unfolding rt by (simp only: maxDepth_layoutVertical_aux(1) m)
  next
    case False
    then have "layoutTree opts sp collapsed rt =
       Node (i \<lparr> pos_x := 0, pos_y := 0 \<rparr>)
         (layoutSide opts sp collapsed (i \<lparr> pos_x := 0, pos_y := 0 \<rparr>)
            (layoutSide opts sp collapsed (i \<lparr> pos_x := 0, pos_y := 0 \<rparr>) cs (js ''right''))
            (js ''left''))"
      by (simp add: layoutTree_def rt Let_def)
    then show ?thesis
      unfolding rt by (simp only:) (rule maxDepth_cong, simp_all add: maxDepth_layoutSide)
  qed
qed

lemma computeAdaptiveSpacing_layoutTree:
  "computeAdaptiveSpacing opts (layoutTree opts sp collapsed rt) = computeAdaptiveSpacing opts rt"
  by (simp only: computeAdaptiveSpacing_def maxDepth_layoutTree)

lemma width_layoutTree:
  "width (info (layoutTree opts sp collapsed rt)) = width (info rt)"
  by (cases rt) (simp add: layoutTree_def Let_def)

lemma direction_layoutTree:
  "\<not> verticalLayout opts \<Longrightarrow>
   map (\<lambda>c. direction (info c)) (children (layoutTree opts sp collapsed rt)) =
   map (\<lambda>c. direction (info c)) (children rt)"
  by (simp add: layoutTree_def Let_def verticalLayout_def direction_layoutSide)

subsection \<open>The complete layout pass\<close>

lemma layoutPass_Inr:
  assumes "layoutPass opts measurer collapsed data = Inr t"
  obtains t0 t' where "buildRoot data = Inr t0"
    and "computeSizes opts measurer (assignDirections opts t0) = Inr t'"
    and "t = layoutTree opts (computeAdaptiveSpacing opts t') collapsed t'"
  using assms by (auto simp: layoutPass_def split: sum.splits)

lemma layoutPass_sides:
  assumes "\<not> verticalLayout opts"
    and "layoutPass opts measurer collapsed data = Inr t"
    and "buildRoot data = Inr t0"
    and "\<forall>c\<in>set (children t0). pinned c \<or> unpinned c"
  shows "\<forall>c\<in>set (children t). pinned c"
proof -
  from assms(2,3) obtain t' where
    s: "computeSizes opts measurer (assignDirections opts t0) = Inr t'"
    and t: "t = layoutTree opts (computeAdaptiveSpacing opts t') collapsed t'"
    by (auto elim!: layoutPass_Inr)
  from assignDirections_sides [OF assms(1,4)]
  have 1: "\<forall>c\<in>set (children (assignDirections opts t0)).
             direction (info c) = JStr (js ''left'') \<or> direction (info c) = JStr (js ''right'')"
    by (simp add: pinned_def)
  from set_direction_transfer [OF children_computeSizes [OF s],
      of "\<lambda>d. d = JStr (js ''left'') \<or> d = JStr (js ''right'')"] 1
  have 2: "\<forall>c\<in>set (children t').
             direction (info c) = JStr (js ''left'') \<or> direction (info c) = JStr (js ''right'')"
    by simp
  from set_direction_transfer [OF direction_layoutTree [OF assms(1),
        of "computeAdaptiveSpacing opts t'" collapsed t'],
      of "\<lambda>d. d = JStr (js ''left'') \<or> d = JStr (js ''right'')"] 2
  show ?thesis
    by (simp add: t pinned_def)
qed

lemma validConfig_default: "validConfig DEFAULT_OPTIONS"
  by (simp add: validConfig_def DEFAULT_OPTIONS_def spacingMultiplier_def double_eval Let_def)

lemma validConfig_down: "validConfig downOptions"
  by (simp add: validConfig_def downOptions_def DEFAULT_OPTIONS_def spacingMultiplier_def
      double_eval Let_def)

lemma validStyles_default: "validStyles DEFAULT_OPTIONS"
  by (simp add: validStyles_def validStyle_def DEFAULT_OPTIONS_def)

lemma validConfig_wideOptions: "validConfig wideOptions"
  by (simp add: validConfig_def wideOptions_def DEFAULT_OPTIONS_def spacingMultiplier_def
      double_eval Let_def)

lemma buildRoot_exampleRoot: "buildRoot exampleRoot = Inr exampleTree"
  by (simp add: buildRoot_def exampleRoot_def exampleTree_def buildTree.simps js_def
      DEFAULT_COLORS_def newNode_def)

text \<open>
  C9, as the code has it: measurement results are not validated. Whatever the measurement
  function returns, negative values included, a layout pass never fails with a
  \<open>MeasurementError\<close>, and it completes with a positioned tree whenever the tree is
  built and every topic is a string.
\<close>

theorem layoutPass_measurement:
  "layoutPass opts measurer collapsed data \<noteq> Inl MeasurementError \<and>
   (\<forall>t. buildRoot data = Inr t \<and> (\<forall>n\<in>set (preorder t). topicIsString n) \<longrightarrow>
      (\<exists>t'. layoutPass opts measurer collapsed data = Inr t'))"
proof (intro conjI allI impI)
  show "layoutPass opts measurer collapsed data \<noteq> Inl MeasurementError"
  proof
    assume a: "layoutPass opts measurer collapsed data = Inl MeasurementError"
    show False
    proof (cases "buildRoot data")
      case (Inl e)
      with a have "buildRoot data = Inl MeasurementError"
        by (simp add: layoutPass_def)
      then have "buildTree data (- 1) 0 0 = Inl MeasurementError"
        by (auto simp: buildRoot_def split: sum.splits)
      with buildTree_error_aux(1) [of data "- 1" 0 0 MeasurementError] show False by simp
    next
      case (Inr t)
      with a have "computeSizes opts measurer (assignDirections opts t) = Inl MeasurementError"
        by (auto simp: layoutPass_def split: sum.splits)
      with computeSizes_error_aux(1) [of opts measurer "assignDirections opts t" MeasurementError]
      show False by simp
    qed
  qed
next
  fix t assume "buildRoot data = Inr t \<and> (\<forall>n\<in>set (preorder t). topicIsString n)"
  then have b: "buildRoot data = Inr t" and s: "\<forall>n\<in>set (preorder t). topicIsString n"
    by blast+
  from topicIsString_assignDirections [OF s]
    computeSizes_succeeds_aux(1) [of "assignDirections opts t" opts measurer]
  obtain t' where "computeSizes opts measurer (assignDirections opts t) = Inr t'"
    by blast
  with b show "\<exists>t'. layoutPass opts measurer collapsed data = Inr t'"
    by (simp add: layoutPass_def)
qed

theorem layoutPass_measurement_witness:
  "buildRoot exampleRoot = Inr exampleTree \<and>
   list_all topicIsString (preorder exampleTree) \<and>
   negativeMeasurer (js ''A'') 14 < 0 \<and>
   (\<exists>t'. layoutPass DEFAULT_OPTIONS negativeMeasurer {} exampleRoot = Inr t') \<and>
   layoutPass DEFAULT_OPTIONS negativeMeasurer {} exampleRoot \<noteq> Inl MeasurementError"
proof -
  have s: "list_all topicIsString (preorder exampleTree)"
    by (simp add: exampleTree_def exampleRoot_def newNode_def js_or_def js_def topicIsString_def)
  then have s': "\<forall>n\<in>set (preorder exampleTree). topicIsString n"
    by (simp add: list_all_iff)
  have n: "negativeMeasurer (js ''A'') 14 < 0"
    by (simp add: negativeMeasurer_def)
  note t = layoutPass_measurement [of DEFAULT_OPTIONS negativeMeasurer "{}" exampleRoot]
  from t buildRoot_exampleRoot s'
  have "\<exists>t'. layoutPass DEFAULT_OPTIONS negativeMeasurer {} exampleRoot = Inr t'"
    by blast
  with t buildRoot_exampleRoot s n show ?thesis by blast
qed

theorem layoutPass_negative_measurement_counterexample:
  "negativeMeasurer (js ''Root'') 17 < 0 \<and>
   (case layoutPass DEFAULT_OPTIONS negativeMeasurer {} exampleRoot of
      Inl e \<Rightarrow> False
    | Inr t \<Rightarrow> map (\<lambda>n. (width n, height n, pos_x n, pos_y n)) (preorder t) =
        [(56, 57, 0, 0), (36, 41, 266, - 45.5), (36, 41, - 266, 0), (36, 41, 266, 45.5)])"
  apply (simp only: layoutPass_def buildRoot_exampleRoot sum.case)
  apply (simp add: exampleTree_def exampleRoot_def
      assignDirections_def DEFAULT_OPTIONS_def setDirection_def newNode_def js_or_def js_def
      LINK_ICON_SPACE_def Let_def negativeMeasurer_def measureText_def wrapText_def isSpace_def
      computeAdaptiveSpacing_eval spacingMultiplier_def double_eval layoutTree_def layoutSide_def round_def)
  done

lemma wrap_aaaa:
  "wrapText [97, 97, 97, 97] 184 (\<lambda>t. 60 * real (length t)) = [[97, 97, 97], [97]]"
  by (simp add: wrapText_def breakWord_def isSpace_def js_def Let_def)

lemma wrap_bb:
  "wrapText [98, 98] 164 (\<lambda>t. 60 * real (length t)) = [[98, 98]]"
  by (simp add: wrapText_def breakWord_def isSpace_def js_def Let_def)

text \<open>
  C3, as the code has it: for every input, measurement, collapse set and valid
  configuration (positive multiplier and base gaps, style profiles without negative
  entries), a layout pass that completes leaves no two distinct visible nodes with
  overlapping boxes, in the vertical modes always, and in the horizontal modes when
  every top-level branch has the direction left or right and either the branches are
  anchored at the walls of the root (\<^verbatim>\<open>centerEdge = 'side'\<close>) or half the width of
  the root does not exceed the effective branch gap.
\<close>

theorem layoutPass_no_overlap:
  assumes cfg: "validConfig opts" and sty: "validStyles opts"
    and pass: "layoutPass opts measurer collapsed data = Inr t"
    and horiz: "\<not> verticalLayout opts \<longrightarrow>
       (\<forall>c\<in>set (children t). pinned c) \<and>
       (centerEdge opts = js ''side'' \<or>
        width (info t) / 2 \<le> sp_branchSpacingX (computeAdaptiveSpacing opts t))"
  shows "noOverlap (drawTree collapsed t) \<and>
         (\<forall>k l. k < l \<and> l < length (drawTree collapsed t) \<longrightarrow>
            interior (drawTree collapsed t ! k) \<inter> interior (drawTree collapsed t ! l) = {})"
proof -
  from pass obtain t0 t' where b: "buildRoot data = Inr t0"
    and s: "computeSizes opts measurer (assignDirections opts t0) = Inr t'"
    and t: "t = layoutTree opts (computeAdaptiveSpacing opts t') collapsed t'"
    by (rule layoutPass_Inr)
  from computeSizes_sizesOk_aux(1) [OF sty] s have "sizesOk t'" by blast
  then have sizes: "\<forall>n\<in>set (preorder t'). 0 \<le> width n \<and> 0 \<le> height n"
    by (simp add: sizesOk_def)
  have h': "\<not> verticalLayout opts \<longrightarrow>
       (\<forall>c\<in>set (children t'). pinned c) \<and>
       (centerEdge opts = js ''side'' \<or>
        width (info t') / 2 \<le> sp_branchSpacingX (computeAdaptiveSpacing opts t'))"
  proof
    assume nv: "\<not> verticalLayout opts"
    with horiz have p: "\<forall>c\<in>set (children t). pinned c"
      and e: "centerEdge opts = js ''side'' \<or>
        width (info t) / 2 \<le> sp_branchSpacingX (computeAdaptiveSpacing opts t)"
      by blast+
    from direction_layoutTree [OF nv, of "computeAdaptiveSpacing opts t'" collapsed t']
    have "map (\<lambda>c. direction (info c)) (children t') = map (\<lambda>c. direction (info c)) (children t)"
      by (simp add: t)
    from set_direction_transfer [OF this, of "\<lambda>d. d = JStr (js ''left'') \<or> d = JStr (js ''right'')"] p
    have "\<forall>c\<in>set (children t'). pinned c"
      by (simp add: pinned_def)
    moreover from e have "centerEdge opts = js ''side'' \<or>
        width (info t') / 2 \<le> sp_branchSpacingX (computeAdaptiveSpacing opts t')"
      by (simp add: t width_layoutTree computeAdaptiveSpacing_layoutTree)
    ultimately show "(\<forall>c\<in>set (children t'). pinned c) \<and>
       (centerEdge opts = js ''side'' \<or>
        width (info t') / 2 \<le> sp_branchSpacingX (computeAdaptiveSpacing opts t'))"
      by blast
  qed
  from layoutTree_noOverlap [OF cfg sizes h', of collapsed] show ?thesis
    unfolding Let_def t [symmetric] .
qed

lemma default_wide_layout:
  "(case layoutPass DEFAULT_OPTIONS sixtyPerChar {} wideRoot of
      Inl e \<Rightarrow> []
    | Inr t \<Rightarrow> map (\<lambda>n. (direction n, boxLeft n, boxRight n, boxTop n, boxBottom n))
                (drawTree {} t)) =
   [(JNull, - 118, 118, - 41, 41), (JStr (js ''right''), 338, 494, - 20.5, 20.5)]"
  by (simp add: layoutPass_def buildRoot_def buildTree.simps wideRoot_def
      assignDirections_def DEFAULT_OPTIONS_def DEFAULT_COLORS_def setDirection_def newNode_def
      js_or_def js_def LINK_ICON_SPACE_def Let_def sixtyPerChar_def measureText_def
      wrap_aaaa wrap_bb
      computeAdaptiveSpacing_eval spacingMultiplier_def double_eval layoutTree_def layoutSide_def round_def
      drawTree_def boxLeft_def boxRight_def boxTop_def boxBottom_def)

theorem layoutPass_no_overlap_witness:
  "validConfig DEFAULT_OPTIONS \<and> validStyles DEFAULT_OPTIONS \<and>
   \<not> verticalLayout DEFAULT_OPTIONS \<and> centerEdge DEFAULT_OPTIONS = js ''side'' \<and>
   (case layoutPass DEFAULT_OPTIONS sixtyPerChar {} wideRoot of
      Inl e \<Rightarrow> False
    | Inr t \<Rightarrow>
        list_all pinned (children t) \<and>
        map (\<lambda>n. (boxLeft n, boxRight n, boxTop n, boxBottom n)) (drawTree {} t) =
          [(- 118, 118, - 41, 41), (338, 494, - 20.5, 20.5)] \<and>
        noOverlap (drawTree {} t))"
proof -
  have nv: "\<not> verticalLayout DEFAULT_OPTIONS"
    by (simp add: verticalLayout_def DEFAULT_OPTIONS_def js_def)
  have e: "centerEdge DEFAULT_OPTIONS = js ''side''"
    by (simp add: DEFAULT_OPTIONS_def)
  obtain t where t: "layoutPass DEFAULT_OPTIONS sixtyPerChar {} wideRoot = Inr t"
    using default_wide_layout by (cases "layoutPass DEFAULT_OPTIONS sixtyPerChar {} wideRoot") simp_all
  with default_wide_layout
  have d: "map (\<lambda>n. (direction n, boxLeft n, boxRight n, boxTop n, boxBottom n)) (drawTree {} t) =
      [(JNull, - 118, 118, - 41, 41), (JStr (js ''right''), 338, 494, - 20.5, 20.5)]"
    by simp
  then have boxes: "map (\<lambda>n. (boxLeft n, boxRight n, boxTop n, boxBottom n)) (drawTree {} t) =
      [(- 118, 118, - 41, 41), (338, 494, - 20.5, 20.5)]"
    by (auto simp: map_eq_Cons_conv)
  have p: "\<forall>c\<in>set (children t). pinned c"
  proof -
    obtain i cs where tn: "t = Node i cs" by (cases t)
    from d show ?thesis
      unfolding tn drawTree_def
      by (cases cs) (auto simp: pinned_def map_eq_Cons_conv split: if_splits)
  qed
  from layoutPass_no_overlap [OF validConfig_default validStyles_default t] nv p e
  have "noOverlap (drawTree {} t)" by blast
  with validConfig_default validStyles_default nv e t p boxes show ?thesis
    by (simp add: list_all_iff)
qed

lemma wide_layout:
  "(case layoutPass wideOptions sixtyPerChar {} wideRoot of
      Inl e \<Rightarrow> []
    | Inr t \<Rightarrow> map (\<lambda>n. (pos_x n, pos_y n, width n, height n)) (drawTree {} t)) =
   [(0, 0, 236, 82), (144, 0, 156, 41)]"
  by (simp add: layoutPass_def buildRoot_def buildTree.simps wideRoot_def wideOptions_def
      assignDirections_def DEFAULT_OPTIONS_def DEFAULT_COLORS_def setDirection_def newNode_def
      js_or_def js_def LINK_ICON_SPACE_def Let_def sixtyPerChar_def measureText_def
      wrap_aaaa wrap_bb
      computeAdaptiveSpacing_eval spacingMultiplier_def double_eval layoutTree_def layoutSide_def round_def
      drawTree_def)

theorem layoutTree_centerEdge_vertical_counterexample:
  "validConfig wideOptions \<and>
   (case layoutPass wideOptions sixtyPerChar {} wideRoot of
      Inl e \<Rightarrow> False
    | Inr t \<Rightarrow>
        map (\<lambda>n. (boxLeft n, boxRight n, boxTop n, boxBottom n)) (drawTree {} t) =
          [(- 118, 118, - 41, 41), (66, 222, - 20.5, 20.5)] \<and>
        \<not> noOverlap (drawTree {} t))"
  by (simp add: validConfig_wideOptions)
     (simp add: layoutPass_def buildRoot_def buildTree.simps wideRoot_def wideOptions_def
      assignDirections_def DEFAULT_OPTIONS_def DEFAULT_COLORS_def setDirection_def newNode_def
      js_or_def js_def LINK_ICON_SPACE_def Let_def sixtyPerChar_def measureText_def
      wrap_aaaa wrap_bb
      computeAdaptiveSpacing_eval spacingMultiplier_def double_eval layoutTree_def layoutSide_def round_def
      drawTree_def noOverlap_def overlaps_def boxLeft_def boxRight_def boxTop_def boxBottom_def)

lemma sizes_tallGrandchild:
  "\<forall>n\<in>set (preorder tallGrandchild). 0 \<le> width n \<and> 0 \<le> height n"
  by (simp add: tallGrandchild_def exampleBox_def)

lemma layoutTree_noOverlap_example:
  "validConfig DEFAULT_OPTIONS \<and>
   list_all (\<lambda>n. 0 \<le> width n \<and> 0 \<le> height n) (preorder tallGrandchild) \<and>
   \<not> verticalLayout DEFAULT_OPTIONS \<and>
   list_all pinned (children tallGrandchild) \<and>
   centerEdge DEFAULT_OPTIONS = js ''side'' \<and>
   noOverlap (drawTree {}
     (layoutTree DEFAULT_OPTIONS (computeAdaptiveSpacing DEFAULT_OPTIONS tallGrandchild) {}
        tallGrandchild)) \<and>
   map (\<lambda>n. (pos_x n, pos_y n)) (drawTree {}
     (layoutTree DEFAULT_OPTIONS (computeAdaptiveSpacing DEFAULT_OPTIONS tallGrandchild) {}
        tallGrandchild)) = [(0, 0), (310, - 40), (550, - 40), (310, 125)] \<and>
   validConfig downOptions \<and> verticalLayout downOptions \<and>
   noOverlap (drawTree {3}
     (layoutTree downOptions (computeAdaptiveSpacing downOptions tallGrandchild) {3}
        tallGrandchild))"
proof -
  have nv: "\<not> verticalLayout DEFAULT_OPTIONS"
    by (simp add: verticalLayout_def DEFAULT_OPTIONS_def js_def)
  have v: "verticalLayout downOptions"
    by (simp add: verticalLayout_def downOptions_def)
  have p: "\<forall>c\<in>set (children tallGrandchild). pinned c"
    by (simp add: tallGrandchild_def exampleBox_def pinned_def newNode_def js_or_def js_def)
  have e: "centerEdge DEFAULT_OPTIONS = js ''side''"
    by (simp add: DEFAULT_OPTIONS_def)
  from layoutTree_noOverlap [OF validConfig_default sizes_tallGrandchild, of "{}"] nv p e
  have 1: "noOverlap (drawTree {}
     (layoutTree DEFAULT_OPTIONS (computeAdaptiveSpacing DEFAULT_OPTIONS tallGrandchild) {}
        tallGrandchild))"
    unfolding Let_def by blast
  from layoutTree_noOverlap [OF validConfig_down sizes_tallGrandchild, of "{3}"] v
  have 2: "noOverlap (drawTree {3}
     (layoutTree downOptions (computeAdaptiveSpacing downOptions tallGrandchild) {3}
        tallGrandchild))"
    unfolding Let_def by blast
  have 3: "map (\<lambda>n. (pos_x n, pos_y n)) (drawTree {}
     (layoutTree DEFAULT_OPTIONS (computeAdaptiveSpacing DEFAULT_OPTIONS tallGrandchild) {}
        tallGrandchild)) = [(0, 0), (310, - 40), (550, - 40), (310, 125)]"
    by (simp add: tallGrandchild_def exampleBox_def newNode_def js_or_def js_def
        DEFAULT_OPTIONS_def computeAdaptiveSpacing_eval spacingMultiplier_def double_eval round_def
        layoutTree_def layoutSide_def Let_def drawTree_def)
  from validConfig_default validConfig_down sizes_tallGrandchild nv v p e 1 2 3
  show ?thesis by (simp add: list_all_iff)
qed

end
